theory Spec2Isabelle
  imports Complex_Main "HOL-Library.AList" "HOL-Library.Multiset"
begin

section \<open>The diagram server (model-source/diagram-server.ts)\<close>

subsection \<open>Geometry and the model schema\<close>

text \<open>
  Coordinates are JavaScript numbers. The code below only copies them from one
  object to another, so they are kept as \<open>real\<close> and never computed with.
\<close>

datatype point = Point (px: real) (py: real)

datatype dimension = Dimension (dwidth: real) (dheight: real)

datatype bounds = Bounds (bounds_x: real) (bounds_y: real) (bounds_width: real) (bounds_height: real)

text \<open>
  \<open>SModelElementSchema\<close>: the plain (JSON) form of a model element, with its type tag,
  its id and its children; \<open>position\<close>, \<open>size\<close> and \<open>alignment\<close> are the properties
  that \<open>applyBounds\<close> and \<open>applyAlignment\<close> write (absent until written).
  \<open>SModelRootSchema\<close> has the same shape.
\<close>

datatype sschema =
  SSchema (stype: string) (sid: string) (position: "point option")
    (size: "dimension option") (alignment: "point option") (schildren: "sschema list")

subsection \<open>Actions\<close>

text \<open>
  An action is an object with a \<open>kind\<close> and further properties that depend on the kind.
  The record holds the properties that \<open>DiagramServer\<close> reads: \<open>newRoot\<close>
  (\<open>None\<close> when the property is missing or null), \<open>bounds\<close> and \<open>alignments\<close> of a
  \<open>ComputedBoundsAction\<close> (\<open>alignments\<close> may be undefined), \<open>svg\<close> of an
  \<open>ExportSvgAction\<close>, and the out-of-band mark \<open>__receivedFromServer\<close>.
\<close>

record action =
  kind :: string
  newRoot :: "sschema option"
  bounds :: "(string \<times> bounds) list"
  alignments :: "(string \<times> point) list option"
  svg :: string
  receivedFromServer :: bool

datatype actionMessage = ActionMessage (msgClientId: string) (msgAction: action)

text \<open>
  The kinds the switch of \<open>handleLocally\<close> and \<open>storeNewModel\<close> compare with.
  \<open>ServerStatusAction.KIND\<close> is declared in diagram-server.ts. The declarations of the
  other classes are not among the sources; \<open>setModel\<close>, \<open>updateModel\<close>,
  \<open>requestBounds\<close> and \<open>computedBounds\<close> are the values of the same protocol
  constants in the server API (Actions.xtend). \<open>ExportSvgAction.KIND\<close> has no
  counterpart there, so \<open>handleLocally\<close> and \<open>handle\<close> take its value as the
  parameter \<open>exportSvgKind\<close>.
\<close>

definition SetModelCommand_KIND :: string where
  "SetModelCommand_KIND = ''setModel''"

definition UpdateModelCommand_KIND :: string where
  "UpdateModelCommand_KIND = ''updateModel''"

definition RequestBoundsCommand_KIND :: string where
  "RequestBoundsCommand_KIND = ''requestBounds''"

definition ComputedBoundsAction_KIND :: string where
  "ComputedBoundsAction_KIND = ''computedBounds''"

definition ServerStatusAction_KIND :: string where
  "ServerStatusAction_KIND = ''serverStatus''"

subsection \<open>The state of a DiagramServer and its collaborators\<close>

text \<open>
  The collaborators are only written to, so each is the list of what it was given,
  oldest first: \<open>storage\<close> the roots passed to \<open>storage.store\<close>, \<open>sent\<close> the envelopes
  passed to \<open>sendMessage\<close>, \<open>dispatched\<close> the actions passed to
  \<open>actionDispatcher.dispatch\<close> (with whether \<open>storeNewModel\<close> was given as the
  callback), \<open>logger\<close> the log lines and \<open>saved\<close> the texts passed to \<open>saveAs\<close>.
  A root is listed as it was when it was passed. A log line is \<open>sending\<close> with the
  envelope, \<open>receiving\<close> with the envelope (its client id, \<open>None\<close> when that is null or
  undefined, and its action) or an error with its text.
  \<open>lastSubmittedModelType\<close> is declared without a value, so it starts undefined.
\<close>

datatype logEntry =
  LogSending actionMessage | LogReceiving "string option" action | LogError string

record diagramServer =
  clientId :: string
  needsServerLayout :: bool
  currentRoot :: sschema
  lastSubmittedModelType :: "string option"
  storage :: "sschema list"
  sent :: "actionMessage list"
  dispatched :: "(action \<times> bool) list"
  logger :: "logEntry list"
  saved :: "string list"

definition newDiagramServer :: "string \<Rightarrow> bool \<Rightarrow> diagramServer" where
  "newDiagramServer baseDiv layout =
     \<lparr> clientId = baseDiv, needsServerLayout = layout,
       currentRoot = SSchema ''NONE'' ''ROOT'' None None None [],
       lastSubmittedModelType = None, storage = [], sent = [], dispatched = [],
       logger = [], saved = [] \<rparr>"

subsection \<open>storeNewModel\<close>

definition storeNewModel :: "action \<Rightarrow> diagramServer \<Rightarrow> diagramServer" where
  "storeNewModel a st =
     (if kind a = SetModelCommand_KIND \<or> kind a = UpdateModelCommand_KIND
         \<or> kind a = RequestBoundsCommand_KIND
      then (case newRoot a of
              None \<Rightarrow> st
            | Some r \<Rightarrow>
                let st1 = st\<lparr>currentRoot := r\<rparr>;
                    st2 = (if kind a = SetModelCommand_KIND \<or> kind a = UpdateModelCommand_KIND
                           then st1\<lparr>lastSubmittedModelType := Some (stype r)\<rparr> else st1)
                in st2\<lparr>storage := storage st2 @ [currentRoot st2]\<rparr>)
      else st)"

subsection \<open>The index over the current root\<close>

text \<open>
  Modelled from the spec: \<open>SModelIndex\<close> (base/model/smodel.ts) is not among the
  sources. The spec describes it as the lookup from an id to the element of the tree
  with that id, ids being unique within a model (\<open>schemaIds\<close> lists the ids of a
  tree). \<open>getById\<close> is that lookup on the tree the index was built over, and
  \<open>updateById\<close> is an assignment to properties of the element the lookup returned:
  the element is an object shared with the tree, so the tree changes. What follows
  is stated for trees whose ids are unique.
\<close>

fun firstSome :: "'a option list \<Rightarrow> 'a option" where
  "firstSome [] = None"
| "firstSome (None # xs) = firstSome xs"
| "firstSome (Some x # xs) = Some x"

fun schemaIds :: "sschema \<Rightarrow> string list" where
  "schemaIds (SSchema t i p s a cs) = i # concat (map schemaIds cs)"

fun getById :: "sschema \<Rightarrow> string \<Rightarrow> sschema option" where
  "getById (SSchema t i p s a cs) x =
     (if i = x then Some (SSchema t i p s a cs) else firstSome (map (\<lambda>c. getById c x) cs))"

fun updateById :: "string \<Rightarrow> (sschema \<Rightarrow> sschema) \<Rightarrow> sschema \<Rightarrow> sschema" where
  "updateById x f (SSchema t i p s a cs) =
     (if i = x then f (SSchema t i p s a cs)
      else SSchema t i p s a (map (updateById x f) cs))"

subsection \<open>handleComputedBounds\<close>

definition applyBounds :: "bounds \<Rightarrow> sschema \<Rightarrow> sschema" where
  "applyBounds b e =
     (case e of SSchema t i p s a cs \<Rightarrow>
        SSchema t i (Some (Point (bounds_x b) (bounds_y b)))
          (Some (Dimension (bounds_width b) (bounds_height b))) a cs)"

definition applyAlignment :: "point \<Rightarrow> sschema \<Rightarrow> sschema" where
  "applyAlignment al e =
     (case e of SSchema t i p s a cs \<Rightarrow> SSchema t i p s (Some (Point (px al) (py al))) cs)"

text \<open>The two loops of \<open>handleComputedBounds\<close>: an entry whose id the index does not
  know is skipped, and the loop goes on with the next entry.\<close>

definition boundsStep :: "string \<times> bounds \<Rightarrow> sschema \<Rightarrow> sschema" where
  "boundsStep b rt =
     (case getById rt (fst b) of
        None \<Rightarrow> rt
      | Some element \<Rightarrow> updateById (fst b) (applyBounds (snd b)) rt)"

definition alignmentStep :: "string \<times> point \<Rightarrow> sschema \<Rightarrow> sschema" where
  "alignmentStep a rt =
     (case getById rt (fst a) of
        None \<Rightarrow> rt
      | Some element \<Rightarrow> updateById (fst a) (applyAlignment (snd a)) rt)"

text \<open>
  The constructors \<open>new UpdateModelAction(root)\<close> and \<open>new SetModelAction(root)\<close>:
  an action of the kind with the root as its \<open>newRoot\<close> (the property \<open>storeNewModel\<close>
  reads), and none of the other properties.
\<close>

definition UpdateModelAction :: "sschema \<Rightarrow> action" where
  "UpdateModelAction rt =
     \<lparr> kind = UpdateModelCommand_KIND, newRoot = Some rt, bounds = [],
       alignments = None, svg = [], receivedFromServer = False \<rparr>"

definition SetModelAction :: "sschema \<Rightarrow> action" where
  "SetModelAction rt =
     \<lparr> kind = SetModelCommand_KIND, newRoot = Some rt, bounds = [],
       alignments = None, svg = [], receivedFromServer = False \<rparr>"

definition handleComputedBounds :: "action \<Rightarrow> diagramServer \<Rightarrow> bool \<times> diagramServer" where
  "handleComputedBounds a st =
     (if needsServerLayout st then (True, st)
      else
        let root1 = fold boundsStep (bounds a) (currentRoot st);
            rt = (case alignments a of
                      None \<Rightarrow> root1
                    | Some als \<Rightarrow> fold alignmentStep als root1);
            st1 = st\<lparr>currentRoot := rt\<rparr>;
            st2 = (if Some (stype rt) = lastSubmittedModelType st1
                   then st1\<lparr>dispatched := dispatched st1 @ [(UpdateModelAction rt, False)]\<rparr>
                   else st1\<lparr>dispatched := dispatched st1 @ [(SetModelAction rt, False)]\<rparr>)
        in (False, st2\<lparr>lastSubmittedModelType := Some (stype rt)\<rparr>))"

subsection \<open>handleLocally and handle\<close>

definition handleExportSvgAction :: "action \<Rightarrow> diagramServer \<Rightarrow> bool \<times> diagramServer" where
  "handleExportSvgAction a st = (False, st\<lparr>saved := saved st @ [svg a]\<rparr>)"

definition handleServerStateAction :: "action \<Rightarrow> diagramServer \<Rightarrow> bool \<times> diagramServer" where
  "handleServerStateAction a st = (False, st)"

definition handleLocally ::
    "string \<Rightarrow> action \<Rightarrow> diagramServer \<Rightarrow> bool \<times> diagramServer" where
  "handleLocally exportSvgKind a st =
     (let st1 = storeNewModel a st in
      if kind a = ComputedBoundsAction_KIND then handleComputedBounds a st1
      else if kind a = RequestBoundsCommand_KIND then (False, st1)
      else if kind a = exportSvgKind then handleExportSvgAction a st1
      else if kind a = ServerStatusAction_KIND then handleServerStateAction a st1
      else (\<not> receivedFromServer a, st1))"

definition handle :: "string \<Rightarrow> action \<Rightarrow> diagramServer \<Rightarrow> diagramServer" where
  "handle exportSvgKind a st =
     (case handleLocally exportSvgKind a st of
        (forwardToServer, st1) \<Rightarrow>
          if forwardToServer
          then let message = ActionMessage (clientId st1) a;
                   st2 = st1\<lparr>logger := logger st1 @ [LogSending message]\<rparr>
               in st2\<lparr>sent := sent st2 @ [message]\<rparr>
          else st1)"

subsection \<open>messageReceived\<close>

text \<open>
  What \<open>messageReceived\<close> is given has the type \<open>any\<close>. A text is parsed first; any
  other value is taken as it is. The values are told apart as far as the code
  looks at them: undefined, null, a primitive value (a number, a boolean, or a
  string that the parser returned; it has none of the own properties asked for),
  and an object. Of an object the code reads the own properties \<open>clientId\<close> and
  \<open>action\<close>: \<open>None\<close> is an object without the own property, \<open>Some None\<close> a property
  whose value is null or undefined, and \<open>Some (Some v)\<close> a property with the value
  the \<open>ActionMessage\<close> interface gives it (a string, an action object).
\<close>

datatype jsvalue =
  JSUndefined
| JSNull
| JSPrimitive
| JSObject (clientIdProperty: "string option option") (actionProperty: "action option option")

datatype payload = Text string | Data jsvalue

datatype jserror = SyntaxError | TypeError

text \<open>\<open>isActionMessage\<close>: \<open>hasOwnProperty\<close> is called on every value that is not
  undefined, and calling a method on null raises a TypeError.\<close>

definition isActionMessage :: "jsvalue \<Rightarrow> jserror + bool" where
  "isActionMessage object =
     (case object of
        JSUndefined \<Rightarrow> Inr False
      | JSNull \<Rightarrow> Inl TypeError
      | JSPrimitive \<Rightarrow> Inr False
      | JSObject c a \<Rightarrow> Inr (c \<noteq> None \<and> a \<noteq> None))"

text \<open>
  \<open>messageReceived\<close>. \<open>JSON.parse\<close> is a parameter: \<open>parse s\<close> is \<open>None\<close> when the text
  is not JSON (\<open>JSON.parse\<close> raises a SyntaxError, which nothing here catches).
  An empty \<open>clientId\<close> is falsy, as null and undefined are.
\<close>

definition messageReceived ::
    "(string \<Rightarrow> jsvalue option) \<Rightarrow> payload \<Rightarrow> diagramServer \<Rightarrow> jserror + diagramServer" where
  "messageReceived parse data st =
     (case (case data of
              Text s \<Rightarrow> (case parse s of None \<Rightarrow> Inl SyntaxError | Some v \<Rightarrow> Inr v)
            | Data v \<Rightarrow> Inr v) of
        Inl e \<Rightarrow> Inl e
      | Inr object \<Rightarrow>
          (case isActionMessage object of
             Inl e \<Rightarrow> Inl e
           | Inr isMessage \<Rightarrow>
               (case (if isMessage then actionProperty object else None) of
                  Some (Some a) \<Rightarrow>
                    (case clientIdProperty object of
                       Some (Some c) \<Rightarrow>
                         if c = [] \<or> c = clientId st
                         then let a1 = a\<lparr>receivedFromServer := True\<rparr>;
                                  st1 = st\<lparr>logger := logger st @ [LogReceiving (Some c) a1]\<rparr>
                              in Inr (st1\<lparr>dispatched := dispatched st1 @ [(a1, True)]\<rparr>)
                         else Inr st
                     | _ \<Rightarrow>
                         let a1 = a\<lparr>receivedFromServer := True\<rparr>;
                             st1 = st\<lparr>logger := logger st @ [LogReceiving None a1]\<rparr>
                         in Inr (st1\<lparr>dispatched := dispatched st1 @ [(a1, True)]\<rparr>))
                | _ \<Rightarrow>
                    Inr (st\<lparr>logger := logger st
                              @ [LogError ''received data is not an action message'']\<rparr>))))"

section \<open>The selection commands (features/select/select.ts)\<close>

subsection \<open>The model tree\<close>

text \<open>
  The classes of an element that the commands tell apart with \<open>instanceof\<close>: \<open>SNode\<close>,
  \<open>SEdge\<close> (with the ids of its source and its target) and any other
  \<open>SChildElement\<close>. An element has its id, whether it has the selectable feature
  (\<open>isSelectable\<close>), its \<open>selected\<close> flag (read and written only when the element is
  selectable) and its children in order. The root, an \<open>SModelRoot\<close>, is not an
  \<open>SChildElement\<close>; it has an id, the same feature and flag, and children.

  Elements are objects that the commands hold on to and change in place. Ids are
  unique within a model, so an element is referred to by its id, and a change to
  the element is a change to the tree at that id.
\<close>

datatype variant = SNode | SEdge (sourceId: string) (targetId: string) | SOther

datatype selement =
  SElement (eid: string) (variant: variant) (selectable: bool) (selected: bool)
    (children: "selement list")

record smodelroot =
  rootId :: string
  rootSelectable :: bool
  rootSelected :: bool
  rootChildren :: "selement list"

fun elements :: "selement \<Rightarrow> selement list" where
  "elements (SElement i v sb s cs) = SElement i v sb s cs # concat (map elements cs)"

text \<open>
  Modelled from the spec: the index of the model (\<open>SModelIndex\<close>, base/model/smodel.ts)
  is not among the sources; the spec describes it as the lookup from an id to the
  element with that id, kept up to date with the tree, in which every id is
  unique. \<open>allChildren\<close> are the elements below the root, and \<open>getChildById\<close> is
  \<open>index.getById(id)\<close> followed by the test \<open>element instanceof SChildElement\<close>,
  which the root fails. With unique ids the lookup does not depend on the order in
  which the index holds the elements. The order in which \<open>index.all()\<close> lists them is
  not fixed by the spec: the list that \<open>index.all()\<close> returns is a parameter \<open>ix\<close> of
  \<open>execute\<close>, which holds the elements below the root in some order (the root, which
  the index holds too, is no \<open>SEdge\<close> and passes none of the tests made on the list).
\<close>

definition allChildren :: "selement list \<Rightarrow> selement list" where
  "allChildren cs = concat (map elements cs)"

definition getChildById :: "smodelroot \<Rightarrow> string \<Rightarrow> selement option" where
  "getChildById m x =
     (if x = rootId m then None else find (\<lambda>e. eid e = x) (allChildren (rootChildren m)))"

text \<open>
  \<open>element.parent.children\<close> for the element with id \<open>x\<close>: the children list that
  holds it, which is the root's or that of an element below.
\<close>

fun childrenHolding :: "string \<Rightarrow> selement \<Rightarrow> selement list option" where
  "childrenHolding x (SElement i v sb s cs) =
     (if x \<in> set (map eid cs) then Some cs else firstSome (map (childrenHolding x) cs))"

definition siblings :: "string \<Rightarrow> selement list \<Rightarrow> selement list option" where
  "siblings x cs =
     (if x \<in> set (map eid cs) then Some cs else firstSome (map (childrenHolding x) cs))"

text \<open>\<open>children.indexOf(element)\<close>: the position of the element, or -1.\<close>

definition indexOf :: "string \<Rightarrow> selement list \<Rightarrow> int" where
  "indexOf x cs =
     (if x \<in> set (map eid cs) then int (length (takeWhile (\<lambda>c. eid c \<noteq> x) cs)) else - 1)"

text \<open>
  Modelled from the spec: \<open>SParentElement.move(child, newIndex)\<close> (base/model/smodel.ts)
  is not among the sources. In the spec's words an element is moved to the end of
  its parent's child list, or restored to its captured sibling index, and an
  insertion shifts the siblings: the child is taken out of the list and put back at
  \<open>newIndex\<close>. The commands pass an index of the list: its last, or one captured from
  a list of the same length.
\<close>

definition moveChild :: "string \<Rightarrow> int \<Rightarrow> selement list \<Rightarrow> selement list" where
  "moveChild x newIndex cs =
     (case find (\<lambda>c. eid c = x) cs of
        None \<Rightarrow> cs
      | Some c \<Rightarrow>
          let others = filter (\<lambda>d. eid d \<noteq> x) cs
          in take (nat newIndex) others @ c # drop (nat newIndex) others)"

text \<open>\<open>element.parent.move(element, newIndex)\<close> in a tree: the move happens in the
  children list that holds the element.\<close>

fun moveBelow :: "string \<Rightarrow> int \<Rightarrow> selement \<Rightarrow> selement" where
  "moveBelow x n (SElement i v sb s cs) =
     SElement i v sb s
       (if x \<in> set (map eid cs) then moveChild x n cs else map (moveBelow x n) cs)"

definition moveInParent :: "string \<Rightarrow> int \<Rightarrow> selement list \<Rightarrow> selement list" where
  "moveInParent x n cs =
     (if x \<in> set (map eid cs) then moveChild x n cs else map (moveBelow x n) cs)"

text \<open>\<open>if (isSelectable(element)) element.selected = b\<close> for the element with id \<open>x\<close>.\<close>

fun setSelected :: "string \<Rightarrow> bool \<Rightarrow> selement \<Rightarrow> selement" where
  "setSelected x b (SElement i v sb s cs) =
     (if i = x then SElement i v sb (if sb then b else s) cs
      else SElement i v sb s (map (setSelected x b) cs))"

subsection \<open>SelectCommand\<close>

record selectAction =
  selectedElementsIDs :: "string list"
  deselectedElementsIDs :: "string list"

text \<open>An \<open>ElementSelection\<close>: the element (its id) and its index among its siblings.\<close>

record elementSelection =
  element :: string
  index :: int

record selectCommand =
  cmdAction :: selectAction
  cmdSelected :: "elementSelection list"
  cmdDeselected :: "elementSelection list"

definition newSelectCommand :: "selectAction \<Rightarrow> selectCommand" where
  "newSelectCommand a = \<lparr> cmdAction = a, cmdSelected = [], cmdDeselected = [] \<rparr>"

text \<open>
  \<open>{ element: element, index: element.parent.children.indexOf(element) }\<close>. An element
  that the index found below the root has a parent, so the second case does not
  arise for it.
\<close>

definition selectionOf :: "selement list \<Rightarrow> string \<Rightarrow> elementSelection" where
  "selectionOf forest x =
     \<lparr> element = x,
       index = (case siblings x forest of Some sibs \<Rightarrow> indexOf x sibs | None \<Rightarrow> - 1) \<rparr>"

text \<open>One round of the first loop of \<open>execute\<close>, on the pair of \<open>this.selected\<close> and
  \<open>selectedNodeIds\<close>.\<close>

definition selectStep ::
    "smodelroot \<Rightarrow> string \<Rightarrow> elementSelection list \<times> string list
       \<Rightarrow> elementSelection list \<times> string list" where
  "selectStep m x acc =
     (case getChildById m x of
        None \<Rightarrow> acc
      | Some e \<Rightarrow>
          if selectable e
          then (fst acc @ [selectionOf (rootChildren m) x],
                if variant e = SNode then snd acc @ [x] else snd acc)
          else acc)"

definition isConnectedEdge :: "string list \<Rightarrow> selement \<Rightarrow> bool" where
  "isConnectedEdge selectedNodeIds e =
     (case variant e of
        SEdge s t \<Rightarrow> s \<in> set selectedNodeIds \<or> t \<in> set selectedNodeIds
      | _ \<Rightarrow> False)"

definition connectedEdges ::
    "selement list \<Rightarrow> smodelroot \<Rightarrow> string list \<Rightarrow> elementSelection list" where
  "connectedEdges ix m selectedNodeIds =
     map (\<lambda>e. selectionOf (rootChildren m) (eid e))
       (filter (isConnectedEdge selectedNodeIds) ix)"

definition deselectStep ::
    "smodelroot \<Rightarrow> string \<Rightarrow> elementSelection list \<Rightarrow> elementSelection list" where
  "deselectStep m x acc =
     (case getChildById m x of
        None \<Rightarrow> acc
      | Some e \<Rightarrow> if selectable e then acc @ [selectionOf (rootChildren m) x] else acc)"

text \<open>The part of \<open>execute\<close> before \<open>return this.redo(context)\<close>: it fills the two lists
  of the command from the model and leaves the model as it is.\<close>

definition capture :: "selement list \<Rightarrow> selectCommand \<Rightarrow> smodelroot \<Rightarrow> selectCommand" where
  "capture ix c m =
     (let (sel, selectedNodeIds) =
            fold (selectStep m) (selectedElementsIDs (cmdAction c)) (cmdSelected c, []);
          sel1 = (if selectedNodeIds \<noteq> [] then connectedEdges ix m selectedNodeIds @ sel
                  else sel);
          desel = fold (deselectStep m) (deselectedElementsIDs (cmdAction c)) (cmdDeselected c)
      in c\<lparr>cmdSelected := sel1, cmdDeselected := desel\<rparr>)"

text \<open>The first loop of \<open>redo\<close>: \<open>element.parent.move(element, childrenLength - 1)\<close>.\<close>

definition moveToEnd :: "string \<Rightarrow> selement list \<Rightarrow> selement list" where
  "moveToEnd x forest =
     (case siblings x forest of
        None \<Rightarrow> forest
      | Some sibs \<Rightarrow> moveInParent x (int (length sibs) - 1) forest)"

definition redoForest :: "selectCommand \<Rightarrow> selement list \<Rightarrow> selement list" where
  "redoForest c forest =
     (let f1 = fold (\<lambda>selection. moveToEnd (element selection)) (cmdSelected c) forest;
          f2 = fold (\<lambda>selection. map (setSelected (element selection) False))
                 (cmdDeselected c) f1
      in fold (\<lambda>selection. map (setSelected (element selection) True)) (cmdSelected c) f2)"

definition redo :: "selectCommand \<Rightarrow> smodelroot \<Rightarrow> selectCommand \<times> smodelroot" where
  "redo c m = (c, m\<lparr>rootChildren := redoForest c (rootChildren m)\<rparr>)"

definition execute ::
    "selement list \<Rightarrow> selectCommand \<Rightarrow> smodelroot \<Rightarrow> selectCommand \<times> smodelroot" where
  "execute ix c m = redo (capture ix c m) m"

text \<open>
  \<open>undo\<close>: the first loop runs over \<open>this.selected\<close> from its last entry to its first;
  \<open>this.deselected.reverse()\<close> reverses the list of the command in place before the
  second loop runs over it.
\<close>

definition undoForest :: "selectCommand \<Rightarrow> selement list \<Rightarrow> selement list" where
  "undoForest c forest =
     (let f1 = fold (\<lambda>selection f.
                   moveInParent (element selection) (index selection)
                     (map (setSelected (element selection) False) f))
                 (rev (cmdSelected c)) forest
      in fold (\<lambda>selection. map (setSelected (element selection) True))
           (rev (cmdDeselected c)) f1)"

definition undo :: "selectCommand \<Rightarrow> smodelroot \<Rightarrow> selectCommand \<times> smodelroot" where
  "undo c m =
     (c\<lparr>cmdDeselected := rev (cmdDeselected c)\<rparr>,
      m\<lparr>rootChildren := undoForest c (rootChildren m)\<rparr>)"

subsection \<open>SelectAllCommand\<close>









section \<open>The action handler registry\<close>

text \<open>
  A command constructor, as \<open>registerCommand\<close> looks at it: its \<open>name\<close> and its own
  property \<open>KIND\<close>, if it has one.
\<close>

record commandConstructor =
  ctorName :: string
  ctorKIND :: "string option"

datatype actionHandler = CommandActionHandler commandConstructor | OtherHandler string

text \<open>
  \<open>ActionHandlerRegistry\<close> extends \<open>InstanceRegistry\<close>, which is not among the sources,
  and \<open>registerCommand\<close> calls the \<open>register\<close> it inherits. So \<open>register\<close> is a parameter
  of \<open>registerCommand\<close>: a function from the kind, the handler and the registry to
  the registry it leaves, or to the error it raises. \<open>loggedErrors\<close> is what
  \<open>logger.error\<close> was given.
\<close>

record 'r actionHandlerRegistry =
  instances :: 'r
  loggedErrors :: "string list"

definition registerCommand ::
    "(string \<Rightarrow> actionHandler \<Rightarrow> 'r \<Rightarrow> 'e + 'r) \<Rightarrow> commandConstructor
       \<Rightarrow> 'r actionHandlerRegistry \<Rightarrow> 'e + 'r actionHandlerRegistry" where
  "registerCommand register commandType reg =
     (case ctorKIND commandType of
        Some k \<Rightarrow>
          (case register k (CommandActionHandler commandType) (instances reg) of
             Inl e \<Rightarrow> Inl e
           | Inr r \<Rightarrow> Inr (reg\<lparr>instances := r\<rparr>))
      | None \<Rightarrow>
          Inr (reg\<lparr>loggedErrors := loggedErrors reg
                 @ [''Command '' @ ctorName commandType @ ''  does not have a KIND property'']\<rparr>))"

text \<open>
  Modelled from the spec: \<open>InstanceRegistry.register\<close>. In the spec
  \<open>register(kind, handler)\<close> binds a handler to a kind, a kind may be registered more
  than once, and a later registration does not replace an earlier one. The
  bindings are kept in the order they were made, and \<open>handlersFor\<close> looks a kind up.
\<close>

definition registerBinding ::
    "string \<Rightarrow> actionHandler \<Rightarrow> (string \<times> actionHandler) list
       \<Rightarrow> unit + (string \<times> actionHandler) list" where
  "registerBinding k h bs = Inr (bs @ [(k, h)])"

definition handlersFor :: "(string \<times> actionHandler) list \<Rightarrow> string \<Rightarrow> actionHandler list" where
  "handlersFor bs k = map snd (filter (\<lambda>b. fst b = k) bs)"

section \<open>Notions used to state and prove the properties\<close>

subsection \<open>Observations on the schema tree\<close>

definition positionOf :: "sschema \<Rightarrow> string \<Rightarrow> point option" where
  "positionOf rt i = (case getById rt i of None \<Rightarrow> None | Some e \<Rightarrow> position e)"

definition sizeOf :: "sschema \<Rightarrow> string \<Rightarrow> dimension option" where
  "sizeOf rt i = (case getById rt i of None \<Rightarrow> None | Some e \<Rightarrow> size e)"

definition alignmentOf :: "sschema \<Rightarrow> string \<Rightarrow> point option" where
  "alignmentOf rt i = (case getById rt i of None \<Rightarrow> None | Some e \<Rightarrow> alignment e)"

text \<open>The properties of a schema element other than its children.\<close>

definition attrs ::
    "sschema \<Rightarrow> string \<times> string \<times> point option \<times> dimension option \<times> point option" where
  "attrs e = (stype e, sid e, position e, size e, alignment e)"

text \<open>The root after the two loops of \<open>handleComputedBounds\<close>.\<close>

definition boundsApplied :: "action \<Rightarrow> sschema \<Rightarrow> sschema" where
  "boundsApplied a rt =
     (case alignments a of
        None \<Rightarrow> fold boundsStep (bounds a) rt
      | Some als \<Rightarrow> fold alignmentStep als (fold boundsStep (bounds a) rt))"

subsection \<open>Well-formed models\<close>

text \<open>The ids of a model are unique: no two elements, the root included, share one.\<close>

definition idsOf :: "selement list \<Rightarrow> string list" where
  "idsOf forest = map eid (allChildren forest)"

definition wellFormed :: "smodelroot \<Rightarrow> bool" where
  "wellFormed m = distinct (rootId m # idsOf (rootChildren m))"

subsection \<open>Changes of a whole tree\<close>

text \<open>
  \<open>reflag g\<close> gives every selectable element with id \<open>i\<close> and flag \<open>s\<close> the flag
  \<open>g i s\<close>; \<open>reorder f\<close> rearranges every children list with \<open>f\<close>, from the leaves up.
  A rearrangement is natural when it looks at nothing but the ids of the elements.
\<close>

fun reflag :: "(string \<Rightarrow> bool \<Rightarrow> bool) \<Rightarrow> selement \<Rightarrow> selement" where
  "reflag g (SElement i v sb s cs) =
     SElement i v sb (if sb then g i s else s) (map (reflag g) cs)"

fun reorder :: "(selement list \<Rightarrow> selement list) \<Rightarrow> selement \<Rightarrow> selement" where
  "reorder f (SElement i v sb s cs) = SElement i v sb s (f (map (reorder f) cs))"

definition reorderF :: "(selement list \<Rightarrow> selement list) \<Rightarrow> selement list \<Rightarrow> selement list" where
  "reorderF f cs = f (map (reorder f) cs)"

definition natural :: "(selement list \<Rightarrow> selement list) \<Rightarrow> bool" where
  "natural f = (\<forall>h cs. (\<forall>c. eid (h c) = eid c) \<longrightarrow> f (map h cs) = map h (f cs))"

text \<open>Moving the element with id \<open>x\<close> to the end of a list that holds it.\<close>

definition toEnd :: "string \<Rightarrow> selement list \<Rightarrow> selement list" where
  "toEnd x cs =
     (case find (\<lambda>c. eid c = x) cs of
        None \<Rightarrow> cs
      | Some c \<Rightarrow> filter (\<lambda>d. eid d \<noteq> x) cs @ [c])"

text \<open>
  The ids of a children list after the elements named in \<open>xs\<close> were moved to its end
  one after the other: the ids that are not named keep their order, and the named
  ones that the list holds follow, each where its last mention in \<open>xs\<close> puts it.
\<close>

definition raised :: "string list \<Rightarrow> string list \<Rightarrow> string list" where
  "raised xs ids =
     filter (\<lambda>i. i \<notin> set xs) ids @ filter (\<lambda>i. i \<in> set ids) (remdups xs)"



text \<open>
  A rearrangement is permuting when it keeps the elements of every list whose ids
  are distinct. Two lists are alike outside (and at) the ids \<open>S\<close> when they hold the
  same elements with ids outside \<open>S\<close> in the same order, and the same element for
  every id in \<open>S\<close>.
\<close>

definition permuting :: "(selement list \<Rightarrow> selement list) \<Rightarrow> bool" where
  "permuting f = (\<forall>cs. distinct (map eid cs) \<longrightarrow> mset (f cs) = mset cs)"

definition alike :: "string set \<Rightarrow> selement list \<Rightarrow> selement list \<Rightarrow> bool" where
  "alike S cs ds =
     (filter (\<lambda>c. eid c \<notin> S) cs = filter (\<lambda>c. eid c \<notin> S) ds
      \<and> (\<forall>x\<in>S. find (\<lambda>c. eid c = x) cs = find (\<lambda>c. eid c = x) ds))"

text \<open>
  What \<open>redo\<close> and \<open>undo\<close> of a \<open>SelectCommand\<close> come to: the flag they leave on a
  selectable element with id \<open>i\<close> and flag \<open>s\<close>, and the rearrangement they make of a
  children list.
\<close>

definition redoFlags :: "selectCommand \<Rightarrow> string \<Rightarrow> bool \<Rightarrow> bool" where
  "redoFlags c i s =
     (if i \<in> element ` set (cmdSelected c) then True
      else if i \<in> element ` set (cmdDeselected c) then False else s)"

definition undoFlags :: "selectCommand \<Rightarrow> string \<Rightarrow> bool \<Rightarrow> bool" where
  "undoFlags c i s =
     (if i \<in> element ` set (cmdDeselected c) then True
      else if i \<in> element ` set (cmdSelected c) then False else s)"

definition raiseAll :: "elementSelection list \<Rightarrow> selement list \<Rightarrow> selement list" where
  "raiseAll sels = fold (\<lambda>selection. toEnd (element selection)) sels"

definition restoreAll :: "elementSelection list \<Rightarrow> selement list \<Rightarrow> selement list" where
  "restoreAll sels =
     fold (\<lambda>selection. moveChild (element selection) (index selection)) (rev sels)"

text \<open>The ids that the loops of \<open>execute\<close> capture: those of selectable elements below
  the root, and among them those of nodes.\<close>

definition isSelectableChild :: "smodelroot \<Rightarrow> string \<Rightarrow> bool" where
  "isSelectableChild m x = (case getChildById m x of None \<Rightarrow> False | Some e \<Rightarrow> selectable e)"

definition isSelectableNode :: "smodelroot \<Rightarrow> string \<Rightarrow> bool" where
  "isSelectableNode m x =
     (case getChildById m x of None \<Rightarrow> False | Some e \<Rightarrow> selectable e \<and> variant e = SNode)"

subsection \<open>Example models\<close>

text \<open>Three selectable siblings A, B and C below the root, none of them selected.\<close>

definition exampleSiblings :: smodelroot where
  "exampleSiblings =
     \<lparr> rootId = ''graph'', rootSelectable = False, rootSelected = False,
       rootChildren =
         [SElement ''A'' SOther True False [], SElement ''B'' SOther True False [],
          SElement ''C'' SOther True False []] \<rparr>"

text \<open>Three nodes and two edges: E1 from N2 to N1, and E2 from N2 to N3.\<close>

definition exampleGraph :: smodelroot where
  "exampleGraph =
     \<lparr> rootId = ''graph'', rootSelectable = False, rootSelected = False,
       rootChildren =
         [SElement ''N1'' SNode True False [], SElement ''N2'' SNode True False [],
          SElement ''N3'' SNode True False [],
          SElement ''E1'' (SEdge ''N2'' ''N1'') True False [],
          SElement ''E2'' (SEdge ''N2'' ''N3'') True False []] \<rparr>"

text \<open>A node A that is not selected and a node B that is, B with a label below it.\<close>

definition exampleMixed :: smodelroot where
  "exampleMixed =
     \<lparr> rootId = ''graph'', rootSelectable = False, rootSelected = False,
       rootChildren =
         [SElement ''A'' SNode True False [],
          SElement ''B'' SNode True True [SElement ''L'' SOther False False []]] \<rparr>"

text \<open>
  A root of type graph with one node n1; a diagram server that holds it, has
  submitted a model of this type, and does not need the layout of the server; a
  computedBounds action with an entry for an id that the root does not hold and one
  for n1; and an elementSelected action, marked as received from the server or not.
\<close>

definition exampleRoot :: sschema where
  "exampleRoot =
     SSchema ''graph'' ''g'' None None None [SSchema ''node'' ''n1'' None None None []]"

definition exampleServer :: diagramServer where
  "exampleServer =
     (newDiagramServer ''sprotty'' False)
       \<lparr>currentRoot := exampleRoot, lastSubmittedModelType := Some ''graph''\<rparr>"

definition exampleBounds :: action where
  "exampleBounds =
     \<lparr> kind = ComputedBoundsAction_KIND, newRoot = None,
       bounds = [(''zz'', Bounds 1 1 1 1), (''n1'', Bounds 10 20 5 5)],
       alignments = None, svg = [], receivedFromServer = False \<rparr>"

definition exampleSelect :: "bool \<Rightarrow> action" where
  "exampleSelect received =
     \<lparr> kind = ''elementSelected'', newRoot = None, bounds = [], alignments = None,
       svg = [], receivedFromServer = received \<rparr>"

section \<open>Properties of the diagram server\<close>

lemmas KIND_defs =
  SetModelCommand_KIND_def UpdateModelCommand_KIND_def RequestBoundsCommand_KIND_def
  ComputedBoundsAction_KIND_def ServerStatusAction_KIND_def



lemma firstSome_map_cong:
  "(\<And>c. c \<in> set cs \<Longrightarrow> map_option g (F c) = map_option g (G c))
   \<Longrightarrow> map_option g (firstSome (map F cs)) = map_option g (firstSome (map G cs))"
proof (induction cs)
  case Nil then show ?case by simp
next
  case (Cons c cs)
  have c: "map_option g (F c) = map_option g (G c)" using Cons.prems by simp
  have r: "map_option g (firstSome (map F cs)) = map_option g (firstSome (map G cs))"
    using Cons by simp
  show ?case using c r by (cases "F c"; cases "G c") auto
qed

lemma firstSome_map_option: "firstSome (map (map_option f) xs) = map_option f (firstSome xs)"
  by (induction xs rule: firstSome.induct) auto

lemma getById_updateById_same:
  assumes "\<And>e. sid (f e) = sid e"
  shows "getById (updateById x f t) x = map_option f (getById t x)"
proof (induction t)
  case (SSchema t i p s a cs)
  show ?case
  proof (cases "i = x")
    case True
    then show ?thesis using assms [of "SSchema t i p s a cs"]
      by (cases "f (SSchema t i p s a cs)") auto
  next
    case False
    have "map (\<lambda>c. getById c x) (map (updateById x f) cs)
        = map (map_option f) (map (\<lambda>c. getById c x) cs)"
      by (simp add: SSchema.IH)
    then show ?thesis using False by (simp add: firstSome_map_option del: map_map)
  qed
qed

lemma getById_below: "sid e \<noteq> y \<Longrightarrow> getById e y = firstSome (map (\<lambda>c. getById c y) (schildren e))"
  by (cases e) simp

lemma getById_updateById_other:
  assumes "y \<noteq> x" and f: "\<And>e. sid (f e) = sid e \<and> schildren (f e) = schildren e"
  shows "map_option attrs (getById (updateById x f t) y) = map_option attrs (getById t y)"
proof (induction t)
  case (SSchema t i p s a cs)
  show ?case
  proof (cases "i = x")
    case True
    then have "getById (f (SSchema t i p s a cs)) y = getById (SSchema t i p s a cs) y"
      using assms(1) f [of "SSchema t i p s a cs"]
        getById_below [of "f (SSchema t i p s a cs)" y] by simp
    then show ?thesis using True by simp
  next
    case False
    have "map_option attrs (firstSome (map (\<lambda>c. getById c y) (map (updateById x f) cs)))
        = map_option attrs (firstSome (map (\<lambda>c. getById c y) cs))"
      unfolding map_map comp_def
      by (rule firstSome_map_cong) (simp add: SSchema.IH)
    then have "i \<noteq> y \<Longrightarrow> ?thesis" using False by simp
    moreover have "i = y \<Longrightarrow> ?thesis" using False by (simp add: attrs_def)
    ultimately show ?thesis by blast
  qed
qed

lemma applyBounds_keeps: "sid (applyBounds b e) = sid e \<and> schildren (applyBounds b e) = schildren e"
  by (cases e) (simp add: applyBounds_def)

lemma applyAlignment_keeps:
  "sid (applyAlignment b e) = sid e \<and> schildren (applyAlignment b e) = schildren e"
  by (cases e) (simp add: applyAlignment_def)

lemma attrs_boundsStep:
  "map_option attrs (getById (boundsStep b rt) i) =
     (if i = fst b then map_option (attrs \<circ> applyBounds (snd b)) (getById rt i)
      else map_option attrs (getById rt i))"
  using getById_updateById_other [of i "fst b" "applyBounds (snd b)" rt]
        getById_updateById_same [of "applyBounds (snd b)" "fst b" rt]
  by (auto simp: boundsStep_def applyBounds_keeps option.map_comp split: option.split)

lemma attrs_alignmentStep:
  "map_option attrs (getById (alignmentStep b rt) i) =
     (if i = fst b then map_option (attrs \<circ> applyAlignment (snd b)) (getById rt i)
      else map_option attrs (getById rt i))"
  using getById_updateById_other [of i "fst b" "applyAlignment (snd b)" rt]
        getById_updateById_same [of "applyAlignment (snd b)" "fst b" rt]
  by (auto simp: alignmentStep_def applyAlignment_keeps option.map_comp split: option.split)


lemma attrs_applyBounds:
  "attrs (applyBounds b e) =
     (stype e, sid e, Some (Point (bounds_x b) (bounds_y b)),
      Some (Dimension (bounds_width b) (bounds_height b)), alignment e)"
  by (cases e) (simp add: attrs_def applyBounds_def)

lemma attrs_applyAlignment:
  "attrs (applyAlignment al e) =
     (stype e, sid e, position e, size e, Some (Point (px al) (py al)))"
  by (cases e) (simp add: attrs_def applyAlignment_def)

lemma attrs_fold_boundsStep:
  "map_option attrs (getById (fold boundsStep bs rt) i) =
     map_option (\<lambda>(t, j, p, s, al).
         case map_of (rev bs) i of
           None \<Rightarrow> (t, j, p, s, al)
         | Some b \<Rightarrow> (t, j, Some (Point (bounds_x b) (bounds_y b)),
                      Some (Dimension (bounds_width b) (bounds_height b)), al))
       (map_option attrs (getById rt i))"
proof (induction bs rule: rev_induct)
  case Nil
  then show ?case by (simp add: option.map_ident case_prod_unfold)
next
  case (snoc b bs)
  show ?case
  proof (cases "i = fst b")
    case True
    have "map_option attrs (getById (fold boundsStep (bs @ [b]) rt) i)
        = map_option (attrs \<circ> applyBounds (snd b)) (getById (fold boundsStep bs rt) i)"
      using attrs_boundsStep [of b "fold boundsStep bs rt" i] True by simp
    also have "\<dots> = map_option (\<lambda>(t, j, p, s, al). (t, j, Some (Point (bounds_x (snd b)) (bounds_y (snd b))),
                      Some (Dimension (bounds_width (snd b)) (bounds_height (snd b))), al))
                 (map_option attrs (getById (fold boundsStep bs rt) i))"
      by (simp add: option.map_comp comp_def attrs_applyBounds) (simp add: attrs_def)
    finally have "map_option attrs (getById (fold boundsStep (bs @ [b]) rt) i)
        = map_option (\<lambda>(t, j, p, s, al). (t, j, Some (Point (bounds_x (snd b)) (bounds_y (snd b))),
                      Some (Dimension (bounds_width (snd b)) (bounds_height (snd b))), al))
            (map_option (\<lambda>(t, j, p, s, al).
         case map_of (rev bs) i of
           None \<Rightarrow> (t, j, p, s, al)
         | Some b \<Rightarrow> (t, j, Some (Point (bounds_x b) (bounds_y b)),
                      Some (Dimension (bounds_width b) (bounds_height b)), al)) (map_option attrs (getById rt i)))"
      unfolding snoc.IH .
    then show ?thesis using True
      by (cases b; cases "map_option attrs (getById rt i)")
         (auto split: option.split)
  next
    case False
    then show ?thesis
      using attrs_boundsStep [of b "fold boundsStep bs rt" i]
      by (cases b) (simp add: snoc.IH)
  qed
qed

lemma attrs_fold_alignmentStep:
  "map_option attrs (getById (fold alignmentStep bs rt) i) =
     map_option (\<lambda>(t, j, p, s, al).
         case map_of (rev bs) i of
           None \<Rightarrow> (t, j, p, s, al)
         | Some b \<Rightarrow> (t, j, p, s, Some (Point (px b) (py b))))
       (map_option attrs (getById rt i))"
proof (induction bs rule: rev_induct)
  case Nil
  then show ?case by (simp add: option.map_ident case_prod_unfold)
next
  case (snoc b bs)
  show ?case
  proof (cases "i = fst b")
    case True
    have "map_option attrs (getById (fold alignmentStep (bs @ [b]) rt) i)
        = map_option (attrs \<circ> applyAlignment (snd b)) (getById (fold alignmentStep bs rt) i)"
      using attrs_alignmentStep [of b "fold alignmentStep bs rt" i] True by simp
    also have "\<dots> = map_option (\<lambda>(t, j, p, s, al). (t, j, p, s, Some (Point (px (snd b)) (py (snd b)))))
                 (map_option attrs (getById (fold alignmentStep bs rt) i))"
      by (simp add: option.map_comp comp_def attrs_applyAlignment) (simp add: attrs_def)
    finally have "map_option attrs (getById (fold alignmentStep (bs @ [b]) rt) i)
        = map_option (\<lambda>(t, j, p, s, al). (t, j, p, s, Some (Point (px (snd b)) (py (snd b)))))
            (map_option (\<lambda>(t, j, p, s, al).
         case map_of (rev bs) i of
           None \<Rightarrow> (t, j, p, s, al)
         | Some b \<Rightarrow> (t, j, p, s, Some (Point (px b) (py b)))) (map_option attrs (getById rt i)))"
      unfolding snoc.IH .
    then show ?thesis using True
      by (cases b; cases "map_option attrs (getById rt i)")
         (auto split: option.split)
  next
    case False
    then show ?thesis
      using attrs_alignmentStep [of b "fold alignmentStep bs rt" i]
      by (cases b) (simp add: snoc.IH)
  qed
qed


lemma stype_boundsStep: "stype (boundsStep b rt) = stype rt"
  by (cases rt) (simp add: boundsStep_def applyBounds_def split: option.split)

lemma stype_alignmentStep: "stype (alignmentStep b rt) = stype rt"
  by (cases rt) (simp add: alignmentStep_def applyAlignment_def split: option.split)

lemma stype_fold_boundsStep: "stype (fold boundsStep bs rt) = stype rt"
  by (induction bs arbitrary: rt) (simp_all add: stype_boundsStep)

lemma stype_fold_alignmentStep: "stype (fold alignmentStep bs rt) = stype rt"
  by (induction bs arbitrary: rt) (simp_all add: stype_alignmentStep)

lemma attrs_pos: "positionOf rt i = (case map_option attrs (getById rt i) of None \<Rightarrow> None | Some (t, j, p, s, al) \<Rightarrow> p)"
  by (simp add: positionOf_def attrs_def split: option.split)
lemma attrs_size: "sizeOf rt i = (case map_option attrs (getById rt i) of None \<Rightarrow> None | Some (t, j, p, s, al) \<Rightarrow> s)"
  by (simp add: sizeOf_def attrs_def split: option.split)
lemma attrs_al: "alignmentOf rt i = (case map_option attrs (getById rt i) of None \<Rightarrow> None | Some (t, j, p, s, al) \<Rightarrow> al)"
  by (simp add: alignmentOf_def attrs_def split: option.split)

lemma attrs_boundsApplied:
  "map_option attrs (getById (boundsApplied a rt) i) =
     map_option (\<lambda>(t, j, p, s, al).
        (t, j,
         (case map_of (rev (bounds a)) i of
            None \<Rightarrow> p | Some b \<Rightarrow> Some (Point (bounds_x b) (bounds_y b))),
         (case map_of (rev (bounds a)) i of
            None \<Rightarrow> s | Some b \<Rightarrow> Some (Dimension (bounds_width b) (bounds_height b))),
         (case alignments a of
            None \<Rightarrow> al
          | Some als \<Rightarrow> (case map_of (rev als) i of
                          None \<Rightarrow> al | Some v \<Rightarrow> Some (Point (px v) (py v))))))
       (map_option attrs (getById rt i))"
proof (cases "alignments a")
  case None
  show ?thesis
    unfolding boundsApplied_def None option.case attrs_fold_boundsStep
    by (cases "map_option attrs (getById rt i)") (auto split: option.split)
next
  case (Some als)
  show ?thesis
    unfolding boundsApplied_def Some option.case attrs_fold_alignmentStep attrs_fold_boundsStep
    by (cases "map_option attrs (getById rt i)") (auto split: option.split)
qed

lemma positionOf_boundsApplied:
  "positionOf (boundsApplied a rt) i =
     (case map_of (rev (bounds a)) i of
        None \<Rightarrow> positionOf rt i
      | Some b \<Rightarrow> if getById rt i = None then None
                  else Some (Point (bounds_x b) (bounds_y b)))"
proof -
  have n: "(getById rt i = None) = (map_option attrs (getById rt i) = None)" by simp
  show ?thesis
    unfolding attrs_pos attrs_boundsApplied n
    by (cases "map_option attrs (getById rt i)") (auto split: option.split)
qed

lemma sizeOf_boundsApplied:
  "sizeOf (boundsApplied a rt) i =
     (case map_of (rev (bounds a)) i of
        None \<Rightarrow> sizeOf rt i
      | Some b \<Rightarrow> if getById rt i = None then None
                  else Some (Dimension (bounds_width b) (bounds_height b)))"
proof -
  have n: "(getById rt i = None) = (map_option attrs (getById rt i) = None)" by simp
  show ?thesis
    unfolding attrs_size attrs_boundsApplied n
    by (cases "map_option attrs (getById rt i)") (auto split: option.split)
qed

lemma alignmentOf_boundsApplied:
  "alignmentOf (boundsApplied a rt) i =
     (case alignments a of
        None \<Rightarrow> alignmentOf rt i
      | Some als \<Rightarrow>
          (case map_of (rev als) i of
             None \<Rightarrow> alignmentOf rt i
           | Some al \<Rightarrow> if getById rt i = None then None
                        else Some (Point (px al) (py al))))"
proof -
  have n: "(getById rt i = None) = (map_option attrs (getById rt i) = None)" by simp
  show ?thesis
    unfolding attrs_al attrs_boundsApplied n
    by (cases "map_option attrs (getById rt i)") (auto split: option.split)
qed

lemma stype_boundsApplied: "stype (boundsApplied a rt) = stype rt"
  by (simp add: boundsApplied_def stype_fold_boundsStep stype_fold_alignmentStep split: option.split)


lemma handleLocally_sent: "sent (snd (handleLocally ek a st)) = sent st"
  by (simp add: handleLocally_def handleComputedBounds_def handleExportSvgAction_def
      handleServerStateAction_def storeNewModel_def Let_def split: option.split)

lemma handleLocally_clientId: "clientId (snd (handleLocally ek a st)) = clientId st"
  by (simp add: handleLocally_def handleComputedBounds_def handleExportSvgAction_def
      handleServerStateAction_def storeNewModel_def Let_def split: option.split)

text \<open>
  C5. \<open>handle\<close> passes an envelope with the client id of this instance and the action
  to \<open>sendMessage\<close> exactly when \<open>handleLocally\<close> returns true, and sends nothing
  otherwise. For an action whose kind is none of computedBounds, requestBounds,
  the kind of the export action and serverStatus, \<open>handleLocally\<close> returns true
  exactly when the action is not marked as received from the server.
\<close>

theorem handle_forwards_iff:
  "sent (handle ek a st) =
     (if fst (handleLocally ek a st) then sent st @ [ActionMessage (clientId st) a]
      else sent st)
   \<and> (kind a \<notin> {ComputedBoundsAction_KIND, RequestBoundsCommand_KIND, ek,
                  ServerStatusAction_KIND}
        \<longrightarrow> fst (handleLocally ek a st) = (\<not> receivedFromServer a))"
proof
  obtain f st1 where h: "handleLocally ek a st = (f, st1)" by (cases "handleLocally ek a st")
  have "sent st1 = sent st" "clientId st1 = clientId st"
    using handleLocally_sent [of ek a st] handleLocally_clientId [of ek a st] h by simp_all
  then show "sent (handle ek a st) =
     (if fst (handleLocally ek a st) then sent st @ [ActionMessage (clientId st) a]
      else sent st)"
    by (simp add: handle_def h Let_def)
next
  show "kind a \<notin> {ComputedBoundsAction_KIND, RequestBoundsCommand_KIND, ek,
                  ServerStatusAction_KIND}
        \<longrightarrow> fst (handleLocally ek a st) = (\<not> receivedFromServer a)"
    by (simp add: handleLocally_def Let_def)
qed

theorem handle_forwards_iff_witness:
  "kind (exampleSelect False)
      \<notin> {ComputedBoundsAction_KIND, RequestBoundsCommand_KIND, ''exportSvg'',
          ServerStatusAction_KIND}
   \<and> sent (handle ''exportSvg'' (exampleSelect False) (newDiagramServer ''sprotty'' False))
       = [ActionMessage ''sprotty'' (exampleSelect False)]
   \<and> sent (handle ''exportSvg'' (exampleSelect True) (newDiagramServer ''sprotty'' False)) = []"
proof -
  let ?st = "newDiagramServer ''sprotty'' False"
  have k: "kind (exampleSelect False)
      \<notin> {ComputedBoundsAction_KIND, RequestBoundsCommand_KIND, ''exportSvg'',
          ServerStatusAction_KIND}"
    by (simp add: exampleSelect_def KIND_defs)
  have k': "kind (exampleSelect True)
      \<notin> {ComputedBoundsAction_KIND, RequestBoundsCommand_KIND, ''exportSvg'',
          ServerStatusAction_KIND}"
    by (simp add: exampleSelect_def KIND_defs)
  have c: "clientId ?st = ''sprotty''" "sent ?st = []"
    by (simp_all add: newDiagramServer_def)
  have r: "\<not> receivedFromServer (exampleSelect False)" "receivedFromServer (exampleSelect True)"
    by (simp_all add: exampleSelect_def)
  show ?thesis
    using k k' c r handle_forwards_iff [of "''exportSvg''" "exampleSelect False" ?st]
      handle_forwards_iff [of "''exportSvg''" "exampleSelect True" ?st]
    by simp
qed

lemma computedBounds_local:
  assumes "kind a = ComputedBoundsAction_KIND" "\<not> needsServerLayout st"
  shows "handle ek a st =
     st\<lparr>currentRoot := boundsApplied a (currentRoot st),
        dispatched := dispatched st @
          [(if lastSubmittedModelType st = Some (stype (currentRoot st))
            then UpdateModelAction (boundsApplied a (currentRoot st))
            else SetModelAction (boundsApplied a (currentRoot st)), False)],
        lastSubmittedModelType := Some (stype (currentRoot st))\<rparr>"
  using assms
  by (auto simp: handle_def handleLocally_def storeNewModel_def handleComputedBounds_def
      Let_def KIND_defs boundsApplied_def stype_fold_boundsStep stype_fold_alignmentStep
      split: option.split)

lemma computedBounds_forward:
  assumes "kind a = ComputedBoundsAction_KIND" "needsServerLayout st"
  shows "handle ek a st =
     st\<lparr>logger := logger st @ [LogSending (ActionMessage (clientId st) a)],
        sent := sent st @ [ActionMessage (clientId st) a]\<rparr>"
  using assms
  by (auto simp: handle_def handleLocally_def storeNewModel_def handleComputedBounds_def
      Let_def KIND_defs)

text \<open>
  C7. Handling a computedBounds action. When \<open>needsServerLayout\<close> is true the action
  is sent on as it is, and the root, the dispatched actions and
  \<open>lastSubmittedModelType\<close> stay as they are. When it is false (and the ids of the
  root are unique) nothing is sent; for every id, the element with that id in the
  root has afterwards the position and size of the last bounds entry for the id
  (and, when alignments are given, the alignment of the last alignment entry for
  it), an entry for an id that the root does not hold changes nothing and the other
  entries are applied all the same; one action is dispatched, an updateModel action
  when the type of the root is \<open>lastSubmittedModelType\<close> and a setModel action
  otherwise, carrying the root; and \<open>lastSubmittedModelType\<close> becomes the type of the
  root.
\<close>

theorem handle_computedBounds:
  assumes "kind a = ComputedBoundsAction_KIND"
  shows
   "(needsServerLayout st \<longrightarrow>
       sent (handle ek a st) = sent st @ [ActionMessage (clientId st) a]
       \<and> currentRoot (handle ek a st) = currentRoot st
       \<and> dispatched (handle ek a st) = dispatched st
       \<and> lastSubmittedModelType (handle ek a st) = lastSubmittedModelType st)
    \<and> (\<not> needsServerLayout st \<and> distinct (schemaIds (currentRoot st)) \<longrightarrow>
       sent (handle ek a st) = sent st
       \<and> (\<forall>i. positionOf (currentRoot (handle ek a st)) i =
              (case map_of (rev (bounds a)) i of
                 None \<Rightarrow> positionOf (currentRoot st) i
               | Some b \<Rightarrow> if getById (currentRoot st) i = None then None
                           else Some (Point (bounds_x b) (bounds_y b))))
       \<and> (\<forall>i. sizeOf (currentRoot (handle ek a st)) i =
              (case map_of (rev (bounds a)) i of
                 None \<Rightarrow> sizeOf (currentRoot st) i
               | Some b \<Rightarrow> if getById (currentRoot st) i = None then None
                           else Some (Dimension (bounds_width b) (bounds_height b))))
       \<and> (\<forall>i. alignmentOf (currentRoot (handle ek a st)) i =
              (case alignments a of
                 None \<Rightarrow> alignmentOf (currentRoot st) i
               | Some als \<Rightarrow>
                   (case map_of (rev als) i of
                      None \<Rightarrow> alignmentOf (currentRoot st) i
                    | Some al \<Rightarrow> if getById (currentRoot st) i = None then None
                                 else Some (Point (px al) (py al)))))
       \<and> dispatched (handle ek a st) = dispatched st @
            [(if lastSubmittedModelType st = Some (stype (currentRoot st))
              then UpdateModelAction (currentRoot (handle ek a st))
              else SetModelAction (currentRoot (handle ek a st)), False)]
       \<and> lastSubmittedModelType (handle ek a st) = Some (stype (currentRoot st)))"
proof (cases "needsServerLayout st")
  case True
  then show ?thesis using computedBounds_forward [OF assms True] by simp
next
  case False
  show ?thesis
    using False
    by (simp add: computedBounds_local [OF assms False] positionOf_boundsApplied
        sizeOf_boundsApplied alignmentOf_boundsApplied)
qed

theorem handle_computedBounds_witness:
  "kind exampleBounds = ComputedBoundsAction_KIND
   \<and> \<not> needsServerLayout exampleServer
   \<and> distinct (schemaIds (currentRoot exampleServer))
   \<and> positionOf (currentRoot (handle ''exportSvg'' exampleBounds exampleServer)) ''n1''
       = Some (Point 10 20)
   \<and> sizeOf (currentRoot (handle ''exportSvg'' exampleBounds exampleServer)) ''n1''
       = Some (Dimension 5 5)
   \<and> positionOf (currentRoot (handle ''exportSvg'' exampleBounds exampleServer)) ''zz'' = None
   \<and> map (\<lambda>d. kind (fst d)) (dispatched (handle ''exportSvg'' exampleBounds exampleServer))
       = [UpdateModelCommand_KIND]
   \<and> sent (handle ''exportSvg'' exampleBounds exampleServer) = []
   \<and> needsServerLayout (exampleServer\<lparr>needsServerLayout := True\<rparr>)
   \<and> sent (handle ''exportSvg'' exampleBounds (exampleServer\<lparr>needsServerLayout := True\<rparr>))
       = [ActionMessage ''sprotty'' exampleBounds]"
proof -
  have k: "kind exampleBounds = ComputedBoundsAction_KIND" by (simp add: exampleBounds_def)
  have l: "\<not> needsServerLayout exampleServer"
    "needsServerLayout (exampleServer\<lparr>needsServerLayout := True\<rparr>)"
    by (simp_all add: exampleServer_def newDiagramServer_def)
  have d: "distinct (schemaIds (currentRoot exampleServer))"
    by (simp add: exampleServer_def exampleRoot_def)
  have v: "map_of (rev (bounds exampleBounds)) ''n1'' = Some (Bounds 10 20 5 5)"
    "map_of (rev (bounds exampleBounds)) ''zz'' = Some (Bounds 1 1 1 1)"
    "getById (currentRoot exampleServer) ''n1'' \<noteq> None"
    "getById (currentRoot exampleServer) ''zz'' = None"
    "lastSubmittedModelType exampleServer = Some (stype (currentRoot exampleServer))"
    "dispatched exampleServer = []" "sent exampleServer = []"
    "clientId exampleServer = ''sprotty''"
    by (simp_all add: exampleBounds_def exampleServer_def exampleRoot_def newDiagramServer_def)
  show ?thesis
    using k l d v handle_computedBounds [OF k, of exampleServer "''exportSvg''"]
      handle_computedBounds [OF k, of "exampleServer\<lparr>needsServerLayout := True\<rparr>" "''exportSvg''"]
    by (simp add: UpdateModelAction_def)
qed






text \<open>
  What \<open>messageReceived\<close> does with an object that has both own properties: the
  action is marked, logged and dispatched with \<open>storeNewModel\<close> as the callback when
  the action is there and the client id is null, undefined, empty or that of this
  instance; with another client id nothing happens; without an action the error is
  logged. A value that is undefined, a primitive value, or an object without one
  of the two properties has the error logged.
\<close>

lemma messageReceived_object:
  "messageReceived parse (Data (JSObject (Some c) (Some a))) st =
     Inr (case a of
            None \<Rightarrow> st\<lparr>logger := logger st @ [LogError ''received data is not an action message'']\<rparr>
          | Some act \<Rightarrow>
              if c = None \<or> c = Some [] \<or> c = Some (clientId st)
              then st\<lparr>logger := logger st @ [LogReceiving c (act\<lparr>receivedFromServer := True\<rparr>)],
                      dispatched := dispatched st @ [(act\<lparr>receivedFromServer := True\<rparr>, True)]\<rparr>
              else st)"
  by (cases c; cases a) (simp_all add: messageReceived_def isActionMessage_def Let_def)

lemma messageReceived_no_message:
  "object = JSUndefined \<or> object = JSPrimitive \<or> object = JSObject None a
     \<or> object = JSObject c None
   \<Longrightarrow> messageReceived parse (Data object) st =
       Inr (st\<lparr>logger := logger st @ [LogError ''received data is not an action message'']\<rparr>)"
  by (auto simp: messageReceived_def isActionMessage_def)

lemma messageReceived_text:
  "messageReceived parse (Text s) st =
     (case parse s of None \<Rightarrow> Inl SyntaxError | Some object \<Rightarrow> messageReceived parse (Data object) st)"
  by (simp add: messageReceived_def split: option.split)

text \<open>
  C6. A payload that is not an action message is to be logged as an error and
  discarded. The payload null, as a value or as the JSON text \<open>null\<close>, is not an
  action message; \<open>isActionMessage\<close> compares it with undefined only and then calls
  \<open>hasOwnProperty\<close> on it, so that \<open>messageReceived\<close> raises a TypeError instead of
  logging the error.
\<close>

theorem messageReceived_null_raises:
  "messageReceived (\<lambda>s. if s = ''null'' then Some JSNull else None) (Text ''null'')
       (newDiagramServer ''sprotty'' False) = Inl TypeError
   \<and> messageReceived (\<lambda>s. if s = ''null'' then Some JSNull else None) (Data JSNull)
       (newDiagramServer ''sprotty'' False) = Inl TypeError"
  by (simp add: messageReceived_def isActionMessage_def)


section \<open>Properties of the action handler registry\<close>

text \<open>
  C8. \<open>registerCommand\<close> with a constructor that has the own property \<open>KIND\<close> calls
  \<open>register\<close> with that kind and a \<open>CommandActionHandler\<close> of the constructor, and
  what \<open>register\<close> leaves is the registry afterwards; nothing is logged. With a
  constructor that lacks the property it logs the error, does not call \<open>register\<close>,
  so that every binding is as it was, and returns normally.
\<close>

theorem registerCommand_registers:
  "(ctorKIND commandType = Some k \<longrightarrow>
      registerCommand register commandType reg =
        (case register k (CommandActionHandler commandType) (instances reg) of
           Inl e \<Rightarrow> Inl e
         | Inr r \<Rightarrow> Inr (reg\<lparr>instances := r\<rparr>)))
   \<and> (ctorKIND commandType = None \<longrightarrow>
      registerCommand register commandType reg =
        Inr (reg\<lparr>loggedErrors := loggedErrors reg
               @ [''Command '' @ ctorName commandType @ ''  does not have a KIND property'']\<rparr>))"
  by (simp add: registerCommand_def)

theorem registerCommand_registers_witness:
  "ctorKIND \<lparr>ctorName = ''SelectCommand'', ctorKIND = Some ''elementSelected''\<rparr>
     = Some ''elementSelected''
   \<and> map_sum id (\<lambda>reg. handlersFor (instances reg) ''elementSelected'')
       (registerCommand registerBinding
          \<lparr>ctorName = ''SelectCommand'', ctorKIND = Some ''elementSelected''\<rparr>
          \<lparr>instances = [(''fit'', OtherHandler ''fit'')], loggedErrors = []\<rparr>)
       = Inr [CommandActionHandler
                \<lparr>ctorName = ''SelectCommand'', ctorKIND = Some ''elementSelected''\<rparr>]
   \<and> map_sum id (\<lambda>reg. handlersFor (instances reg) ''fit'')
       (registerCommand registerBinding
          \<lparr>ctorName = ''SelectCommand'', ctorKIND = Some ''elementSelected''\<rparr>
          \<lparr>instances = [(''fit'', OtherHandler ''fit'')], loggedErrors = []\<rparr>)
       = Inr [OtherHandler ''fit'']
   \<and> ctorKIND \<lparr>ctorName = ''Broken'', ctorKIND = None\<rparr> = None
   \<and> registerCommand registerBinding \<lparr>ctorName = ''Broken'', ctorKIND = None\<rparr>
          \<lparr>instances = [(''fit'', OtherHandler ''fit'')], loggedErrors = []\<rparr>
       = Inr \<lparr>instances = [(''fit'', OtherHandler ''fit'')],
              loggedErrors = [''Command Broken  does not have a KIND property'']\<rparr>"
  using registerCommand_registers
      [of "\<lparr>ctorName = ''SelectCommand'', ctorKIND = Some ''elementSelected''\<rparr>"
          "''elementSelected''" registerBinding
          "\<lparr>instances = [(''fit'', OtherHandler ''fit'')], loggedErrors = []\<rparr>"]
    registerCommand_registers
      [of "\<lparr>ctorName = ''Broken'', ctorKIND = None\<rparr>" "''x''" registerBinding
          "\<lparr>instances = [(''fit'', OtherHandler ''fit'')], loggedErrors = []\<rparr>"]
  by (simp add: handlersFor_def registerBinding_def)


section \<open>Lemmas on the model tree\<close>

lemma eid_reflag [simp]: "eid (reflag g e) = eid e"
  by (cases e) simp

lemma eid_reorder [simp]: "eid (reorder f e) = eid e"
  by (cases e) simp

lemma eid_setSelected [simp]: "eid (setSelected x b e) = eid e"
  by (cases e) simp

lemma selectable_reflag [simp]: "selectable (reflag g e) = selectable e"
  by (cases e) simp

lemma reflag_reflag: "reflag g (reflag h e) = reflag (\<lambda>i s. g i (h i s)) e"
  by (induction e) simp

lemma reflag_cong:
  "(\<And>x. x \<in> set (elements e) \<Longrightarrow> selectable x \<Longrightarrow> g (eid x) (selected x) = h (eid x) (selected x))
   \<Longrightarrow> reflag g e = reflag h e"
proof (induction e)
  case (SElement i v sb s cs)
  have "\<And>c. c \<in> set cs \<Longrightarrow> reflag g c = reflag h c"
    using SElement by auto
  moreover have "sb \<Longrightarrow> g i s = h i s"
    using SElement.prems [of "SElement i v sb s cs"] by simp
  ultimately show ?case by simp
qed

lemma reflag_id: "reflag (\<lambda>i s. s) e = e"
  by (induction e) (simp add: map_idI)

lemma elements_self: "e \<in> set (elements e)"
  by (cases e) simp

lemma ids_elements_map:
  "(\<And>c. c \<in> set cs \<Longrightarrow> map eid (elements (h c)) = map eid (elements c))
   \<Longrightarrow> map eid (concat (map elements (map h cs))) = map eid (concat (map elements cs))"
  by (induction cs) simp_all

lemma ids_setSelected: "map eid (elements (setSelected x b e)) = map eid (elements e)"
proof (induction e)
  case (SElement i v sb s cs)
  then show ?case using ids_elements_map [of cs "setSelected x b"] by simp
qed

lemma ids_reflag: "map eid (elements (reflag g e)) = map eid (elements e)"
proof (induction e)
  case (SElement i v sb s cs)
  then show ?case using ids_elements_map [of cs "reflag g"] by simp
qed

lemma idsOf_setSelected: "idsOf (map (setSelected x b) F) = idsOf F"
  unfolding idsOf_def allChildren_def
  by (rule ids_elements_map) (simp add: ids_setSelected)

lemma idsOf_reflag: "idsOf (map (reflag g) F) = idsOf F"
  unfolding idsOf_def allChildren_def
  by (rule ids_elements_map) (simp add: ids_reflag)

lemma idsOf_Cons: "idsOf (c # cs) = map eid (elements c) @ idsOf cs"
  by (simp add: idsOf_def allChildren_def)

lemma idsOf_Nil [simp]: "idsOf [] = []"
  by (simp add: idsOf_def allChildren_def)

lemma ids_element: "map eid (elements e) = eid e # idsOf (children e)"
  by (cases e) (simp add: idsOf_def allChildren_def)

lemma idsOf_member: "c \<in> set cs \<Longrightarrow> set (map eid (elements c)) \<subseteq> set (idsOf cs)"
  by (induction cs) (auto simp: idsOf_Cons)

lemma idsOf_distinct_member:
  "distinct (idsOf cs) \<Longrightarrow> c \<in> set cs \<Longrightarrow> distinct (map eid (elements c))"
  by (induction cs) (auto simp: idsOf_Cons)

text \<open>An element that does not occur is not changed.\<close>

lemma setSelected_absent: "x \<notin> set (map eid (elements e)) \<Longrightarrow> setSelected x b e = e"
  by (induction e) (auto intro!: map_idI)

lemma setSelected_reflag:
  "distinct (map eid (elements e))
   \<Longrightarrow> setSelected x b e = reflag (\<lambda>i s. if i = x then b else s) e"
proof (induction e)
  case (SElement i v sb s cs)
  have d: "distinct (idsOf cs)" and ni: "i \<notin> set (idsOf cs)"
    using SElement.prems by (simp_all add: idsOf_def allChildren_def)
  show ?case
  proof (cases "i = x")
    case True
    have "\<And>c. c \<in> set cs \<Longrightarrow> reflag (\<lambda>i s. if i = x then b else s) c = reflag (\<lambda>i s. s) c"
    proof -
      fix c assume c: "c \<in> set cs"
      show "reflag (\<lambda>i s. if i = x then b else s) c = reflag (\<lambda>i s. s) c"
      proof (rule reflag_cong)
        fix y assume "y \<in> set (elements c)"
        then have "eid y \<in> set (idsOf cs)" using idsOf_member [OF c] by auto
        then have "eid y \<noteq> x" using ni True by auto
        then show "(if eid y = x then b else selected y) = selected y" by simp
      qed
    qed
    then have "map (reflag (\<lambda>i s. if i = x then b else s)) cs = cs"
      by (simp add: reflag_id map_idI)
    then show ?thesis using True by simp
  next
    case False
    have "\<And>c. c \<in> set cs \<Longrightarrow> setSelected x b c = reflag (\<lambda>i s. if i = x then b else s) c"
      using SElement.IH idsOf_distinct_member [OF d] by simp
    then show ?thesis using False by simp
  qed
qed

lemma map_setSelected_reflag:
  "distinct (idsOf F)
   \<Longrightarrow> map (setSelected x b) F = map (reflag (\<lambda>i s. if i = x then b else s)) F"
  using setSelected_reflag idsOf_distinct_member by simp

lemma fold_setSelected_reflag:
  "distinct (idsOf F)
   \<Longrightarrow> fold (\<lambda>selection. map (setSelected (element selection) b)) sels F
       = map (reflag (\<lambda>i s. if i \<in> element ` set sels then b else s)) F"
proof (induction sels arbitrary: F)
  case Nil
  then show ?case by (simp add: reflag_id)
next
  case (Cons a sels)
  let ?A = "\<lambda>i s. if i = element a then b else s"
  let ?S = "\<lambda>i s. if i \<in> element ` set sels then b else s"
  have step: "map (setSelected (element a) b) F = map (reflag ?A) F"
    by (rule map_setSelected_reflag [OF Cons.prems])
  have d: "distinct (idsOf (map (setSelected (element a) b) F))"
    using Cons.prems by (simp add: idsOf_setSelected)
  have "fold (\<lambda>selection. map (setSelected (element selection) b)) (a # sels) F
      = fold (\<lambda>selection. map (setSelected (element selection) b)) sels
          (map (setSelected (element a) b) F)"
    by simp
  also have "\<dots> = map (reflag ?S) (map (setSelected (element a) b) F)"
    by (rule Cons.IH [OF d])
  also have "\<dots> = map (reflag ?S) (map (reflag ?A) F)"
    by (simp only: step)
  also have "\<dots> = map (reflag (\<lambda>i s. ?S i (?A i s))) F"
    by (simp add: reflag_reflag)
  also have "(\<lambda>i s. ?S i (?A i s)) = (\<lambda>i s. if i \<in> element ` set (a # sels) then b else s)"
    by (auto simp: fun_eq_iff)
  finally show ?case .
qed


section \<open>Lemmas on SelectAllCommand\<close>
























subsection \<open>Moves within one list\<close>

lemma find_None_eid: "(find (\<lambda>c. eid c = x) cs = None) = (x \<notin> eid ` set cs)"
  by (auto simp: find_None_iff)

lemma find_Some_eid: "find (\<lambda>c. eid c = x) cs = Some c \<Longrightarrow> c \<in> set cs \<and> eid c = x"
  by (auto simp: find_Some_iff)

lemma moveChild_absent: "x \<notin> eid ` set cs \<Longrightarrow> moveChild x n cs = cs"
  using find_None_eid [of x cs] by (simp add: moveChild_def)

lemma toEnd_absent: "x \<notin> eid ` set cs \<Longrightarrow> toEnd x cs = cs"
  using find_None_eid [of x cs] by (simp add: toEnd_def)

lemma find_map_eid:
  "(\<And>c. eid (h c) = eid c)
   \<Longrightarrow> find (\<lambda>c. eid c = x) (map h cs) = map_option h (find (\<lambda>c. eid c = x) cs)"
  by (induction cs) simp_all

lemma filter_map_eid:
  "(\<And>c. eid (h c) = eid c)
   \<Longrightarrow> filter (\<lambda>c. P (eid c)) (map h cs) = map h (filter (\<lambda>c. P (eid c)) cs)"
  by (induction cs) simp_all

lemma natural_moveChild: "natural (moveChild x n)"
  unfolding natural_def
proof (intro allI impI)
  fix h :: "selement \<Rightarrow> selement" and cs
  assume h: "\<forall>c. eid (h c) = eid c"
  show "moveChild x n (map h cs) = map h (moveChild x n cs)"
    using find_map_eid [of h x cs] filter_map_eid [of h "\<lambda>i. i \<noteq> x" cs] h
    by (simp add: moveChild_def Let_def take_map drop_map split: option.split)
qed

lemma natural_toEnd: "natural (toEnd x)"
  unfolding natural_def
proof (intro allI impI)
  fix h :: "selement \<Rightarrow> selement" and cs
  assume h: "\<forall>c. eid (h c) = eid c"
  show "toEnd x (map h cs) = map h (toEnd x cs)"
    using find_map_eid [of h x cs] filter_map_eid [of h "\<lambda>i. i \<noteq> x" cs] h
    by (simp add: toEnd_def split: option.split)
qed

lemma natural_comp: "natural f \<Longrightarrow> natural g \<Longrightarrow> natural (f \<circ> g)"
  by (simp add: natural_def)

lemma natural_id: "natural (\<lambda>cs. cs)" "natural id"
  by (simp_all add: natural_def)

lemma natural_fold: "(\<And>x. x \<in> set xs \<Longrightarrow> natural (F x)) \<Longrightarrow> natural (fold F xs)"
proof (induction xs)
  case Nil
  then show ?case by (simp add: natural_id)
next
  case (Cons x xs)
  have "fold F (x # xs) = fold F xs \<circ> F x" by (simp add: fun_eq_iff)
  then show ?case using Cons by (simp only: ) (rule natural_comp, simp_all)
qed

lemma filter_eid_single:
  "distinct (map eid cs) \<Longrightarrow> c \<in> set cs \<Longrightarrow> filter (\<lambda>d. eid d = eid c) cs = [c]"
proof (induction cs)
  case Nil
  then show ?case by simp
next
  case (Cons d cs)
  show ?case
  proof (cases "d = c")
    case True
    then have "eid c \<notin> eid ` set cs" using Cons.prems by simp
    then have "\<And>e. e \<in> set cs \<Longrightarrow> eid e \<noteq> eid c" by (auto simp: image_iff)
    then have "filter (\<lambda>d. eid d = eid c) cs = []" by (simp add: filter_empty_conv)
    then show ?thesis using True by simp
  next
    case False
    then show ?thesis using Cons by auto
  qed
qed

lemma mset_split_eid:
  assumes "distinct (map eid cs)" "c \<in> set cs"
  shows "mset (filter (\<lambda>d. eid d \<noteq> eid c) cs) + {#c#} = mset cs"
proof -
  have "mset (filter (\<lambda>d. eid d = eid c) cs) + mset (filter (\<lambda>d. eid d \<noteq> eid c) cs) = mset cs"
    using multiset_partition [of "mset cs" "\<lambda>d. eid d = eid c"] by simp
  then show ?thesis unfolding filter_eid_single [OF assms] by simp
qed

lemma mset_take_insert_drop: "mset (take n xs @ c # drop n xs) = mset xs + {#c#}"
proof -
  have "mset (take n xs @ c # drop n xs) = mset (take n xs) + mset (drop n xs) + {#c#}"
    by simp
  also have "mset (take n xs) + mset (drop n xs) = mset (take n xs @ drop n xs)"
    by (simp only: mset_append)
  finally show ?thesis by (simp only: append_take_drop_id)
qed

lemma permuting_moveChild: "permuting (moveChild x n)"
  unfolding permuting_def
proof (intro allI impI)
  fix cs assume d: "distinct (map eid cs)"
  show "mset (moveChild x n cs) = mset cs"
  proof (cases "find (\<lambda>c. eid c = x) cs")
    case None
    then have "x \<notin> eid ` set cs" using find_None_eid [of x cs] by blast
    then show ?thesis by (simp add: moveChild_absent)
  next
    case (Some c)
    have c: "c \<in> set cs" "eid c = x" using find_Some_eid [OF Some] by simp_all
    let ?o = "filter (\<lambda>d. eid d \<noteq> x) cs"
    have "moveChild x n cs = take (nat n) ?o @ c # drop (nat n) ?o"
      using Some by (simp add: moveChild_def Let_def)
    then have "mset (moveChild x n cs) = mset ?o + {#c#}"
      by (simp only: mset_take_insert_drop)
    then show ?thesis using mset_split_eid [OF d c(1)] c(2) by simp
  qed
qed

lemma permuting_toEnd: "permuting (toEnd x)"
  unfolding permuting_def
proof (intro allI impI)
  fix cs assume d: "distinct (map eid cs)"
  show "mset (toEnd x cs) = mset cs"
  proof (cases "find (\<lambda>c. eid c = x) cs")
    case None
    then have "x \<notin> eid ` set cs" using find_None_eid [of x cs] by blast
    then show ?thesis by (simp add: toEnd_absent)
  next
    case (Some c)
    have c: "c \<in> set cs" "eid c = x" using find_Some_eid [OF Some] by simp_all
    show ?thesis using mset_split_eid [OF d c(1)] c(2) Some by (simp add: toEnd_def)
  qed
qed

lemma permuting_distinct:
  "permuting f \<Longrightarrow> distinct (map eid cs) \<Longrightarrow> distinct (map eid (f cs))"
proof -
  assume p: "permuting f" and d: "distinct (map eid cs)"
  have "mset (map eid (f cs)) = mset (map eid cs)"
    using p d by (simp add: permuting_def)
  then show ?thesis using d mset_eq_imp_distinct_iff [of "map eid (f cs)" "map eid cs"] by simp
qed

lemma permuting_comp: "permuting f \<Longrightarrow> permuting g \<Longrightarrow> permuting (f \<circ> g)"
proof -
  assume f: "permuting f" and g: "permuting g"
  show "permuting (f \<circ> g)"
    unfolding permuting_def
  proof (intro allI impI)
    fix cs assume d: "distinct (map eid cs)"
    have "distinct (map eid (g cs))" using g d by (rule permuting_distinct)
    then have "mset (f (g cs)) = mset (g cs)" using f by (simp add: permuting_def)
    then show "mset ((f \<circ> g) cs) = mset cs" using g d by (simp add: permuting_def)
  qed
qed

lemma permuting_fold: "(\<And>x. x \<in> set xs \<Longrightarrow> permuting (F x)) \<Longrightarrow> permuting (fold F xs)"
proof (induction xs)
  case Nil
  then show ?case by (simp add: permuting_def)
next
  case (Cons x xs)
  have "fold F (x # xs) = fold F xs \<circ> F x" by (simp add: fun_eq_iff)
  then show ?case using Cons by (simp only: ) (rule permuting_comp, simp_all)
qed

lemma moveChild_toEnd:
  "x \<in> eid ` set cs \<Longrightarrow> moveChild x (int (length cs) - 1) cs = toEnd x cs"
proof -
  assume x: "x \<in> eid ` set cs"
  then obtain c where c: "find (\<lambda>c. eid c = x) cs = Some c"
    using find_None_eid [of x cs] by (cases "find (\<lambda>c. eid c = x) cs") auto
  obtain d where "d \<in> set cs" "eid d = x" using x by auto
  then have "length (filter (\<lambda>d. eid d \<noteq> x) cs) < length cs"
    by (intro length_filter_less [of d]) auto
  then have "length (filter (\<lambda>d. eid d \<noteq> x) cs) \<le> nat (int (length cs) - 1)" by simp
  then show ?thesis using c by (simp add: moveChild_def toEnd_def Let_def)
qed

subsection \<open>Changes of a whole tree\<close>

lemma elements_reflag: "elements (reflag g e) = map (reflag g) (elements e)"
  by (induction e) (simp add: map_concat comp_def cong: map_cong)

lemma allChildren_reflag: "allChildren (map (reflag g) F) = map (reflag g) (allChildren F)"
  by (simp add: allChildren_def map_concat comp_def elements_reflag)

lemma reorder_reorder: "natural g \<Longrightarrow> reorder f (reorder g e) = reorder (f \<circ> g) e"
  unfolding comp_def
proof (induction e)
  case (SElement i v sb s cs)
  have "map (reorder f) (g (map (reorder g) cs)) = g (map (reorder f) (map (reorder g) cs))"
    using SElement.prems by (simp add: natural_def)
  also have "map (reorder f) (map (reorder g) cs) = map (reorder (\<lambda>cs. f (g cs))) cs"
    using SElement by simp
  finally show ?case by simp
qed

lemma reorderF_reorderF: "natural g \<Longrightarrow> reorderF f (reorderF g F) = reorderF (f \<circ> g) F"
proof -
  assume n: "natural g"
  have "map (reorder f) (g (map (reorder g) F)) = g (map (reorder f) (map (reorder g) F))"
    using n by (simp add: natural_def)
  moreover have "reorder f \<circ> reorder g = reorder (f \<circ> g)"
    using n by (intro ext) (simp add: reorder_reorder)
  ultimately show ?thesis by (simp add: reorderF_def)
qed

lemma reflag_reorder: "natural f \<Longrightarrow> reflag g (reorder f e) = reorder f (reflag g e)"
proof (induction e)
  case (SElement i v sb s cs)
  have "map (reflag g) (f (map (reorder f) cs)) = f (map (reflag g) (map (reorder f) cs))"
    using SElement.prems by (simp add: natural_def)
  also have "map (reflag g) (map (reorder f) cs) = map (reorder f) (map (reflag g) cs)"
    using SElement by simp
  finally show ?case by simp
qed

lemma reflag_reorderF:
  "natural f \<Longrightarrow> map (reflag g) (reorderF f F) = reorderF f (map (reflag g) F)"
proof -
  assume n: "natural f"
  have "map (reflag g) (f (map (reorder f) F)) = f (map (reflag g) (map (reorder f) F))"
    using n by (simp add: natural_def)
  moreover have "reflag g \<circ> reorder f = reorder f \<circ> reflag g"
    using n by (intro ext) (simp add: reflag_reorder)
  ultimately show ?thesis by (simp add: reorderF_def)
qed

lemma mset_allChildren_cong:
  "mset ys = mset zs \<Longrightarrow> mset (allChildren ys) = mset (allChildren zs)"
proof -
  assume "mset ys = mset zs"
  then have "mset (map (\<lambda>c. mset (elements c)) ys) = mset (map (\<lambda>c. mset (elements c)) zs)"
    by simp
  then have "sum_list (map (\<lambda>c. mset (elements c)) ys) = sum_list (map (\<lambda>c. mset (elements c)) zs)"
    by (metis sum_mset_sum_list)
  then show ?thesis by (simp add: allChildren_def mset_concat comp_def)
qed

lemma mset_allChildren_map:
  "(\<And>c. c \<in> set cs \<Longrightarrow> mset (elements (h c)) = image_mset h (mset (elements c)))
   \<Longrightarrow> mset (allChildren (map h cs)) = image_mset h (mset (allChildren cs))"
  by (induction cs) (simp_all add: allChildren_def)

lemma distinct_idsOf_top: "distinct (idsOf cs) \<Longrightarrow> distinct (map eid cs)"
proof (induction cs)
  case Nil
  then show ?case by simp
next
  case (Cons c cs)
  have "eid c \<notin> eid ` set cs"
  proof
    assume "eid c \<in> eid ` set cs"
    then obtain c' where c': "c' \<in> set cs" "eid c' = eid c" by auto
    then have "eid c \<in> set (idsOf cs)"
      using idsOf_member [OF c'(1)] elements_self [of c'] by force
    moreover have "eid c \<in> set (map eid (elements c))" using elements_self [of c] by force
    ultimately show False using Cons.prems by (auto simp: idsOf_Cons)
  qed
  then show ?case using Cons by (simp add: idsOf_Cons)
qed

lemma distinct_children:
  "distinct (map eid (elements (SElement i v sb s cs)))
   \<Longrightarrow> distinct (idsOf cs) \<and> distinct (map eid cs) \<and> i \<notin> set (idsOf cs)"
  using distinct_idsOf_top [of cs] by (simp add: idsOf_def allChildren_def)

lemma mset_elements_reorder:
  "permuting f \<Longrightarrow> distinct (map eid (elements e))
   \<Longrightarrow> mset (elements (reorder f e)) = image_mset (reorder f) (mset (elements e))"
proof (induction e)
  case (SElement i v sb s cs)
  have d: "distinct (idsOf cs)" "distinct (map eid cs)"
    using distinct_children [OF SElement.prems(2)] by simp_all
  let ?ys = "map (reorder f) cs"
  have "distinct (map eid ?ys)" using d(2) by (simp add: comp_def)
  then have "mset (f ?ys) = mset ?ys" using SElement.prems(1) by (simp add: permuting_def)
  then have "mset (allChildren (f ?ys)) = mset (allChildren ?ys)"
    by (rule mset_allChildren_cong)
  also have "\<dots> = image_mset (reorder f) (mset (allChildren cs))"
    using SElement.IH SElement.prems(1) idsOf_distinct_member [OF d(1)]
    by (intro mset_allChildren_map) simp
  finally show ?case by (simp add: allChildren_def)
qed

lemma mset_allChildren_reorderF:
  assumes "permuting f" "distinct (idsOf F)"
  shows "mset (allChildren (reorderF f F)) = image_mset (reorder f) (mset (allChildren F))"
proof -
  let ?ys = "map (reorder f) F"
  have "distinct (map eid ?ys)" using distinct_idsOf_top [OF assms(2)] by (simp add: comp_def)
  then have "mset (f ?ys) = mset ?ys" using assms(1) by (simp add: permuting_def)
  then have "mset (allChildren (f ?ys)) = mset (allChildren ?ys)"
    by (rule mset_allChildren_cong)
  also have "\<dots> = image_mset (reorder f) (mset (allChildren F))"
    using assms idsOf_distinct_member [OF assms(2)]
    by (intro mset_allChildren_map) (simp add: mset_elements_reorder)
  finally show ?thesis by (simp add: reorderF_def)
qed

lemma idsOf_reorderF:
  assumes "permuting f" "distinct (idsOf F)"
  shows "mset (idsOf (reorderF f F)) = mset (idsOf F)"
proof -
  have "mset (idsOf (reorderF f F)) = image_mset eid (mset (allChildren (reorderF f F)))"
    by (simp add: idsOf_def)
  also have "\<dots> = image_mset eid (image_mset (reorder f) (mset (allChildren F)))"
    by (simp only: mset_allChildren_reorderF [OF assms])
  finally show ?thesis by (simp add: idsOf_def image_mset.compositionality comp_def)
qed

lemma distinct_reorderF:
  "permuting f \<Longrightarrow> distinct (idsOf F) \<Longrightarrow> distinct (idsOf (reorderF f F))"
  using idsOf_reorderF [of f F] mset_eq_imp_distinct_iff [of "idsOf (reorderF f F)" "idsOf F"]
  by simp

subsection \<open>The parent of an element\<close>

lemma firstSome_None: "(firstSome xs = None) = (\<forall>x\<in>set xs. x = None)"
  by (induction xs rule: firstSome.induct) auto

lemma firstSome_Some: "firstSome xs = Some s \<Longrightarrow> Some s \<in> set xs"
  by (induction xs rule: firstSome.induct) auto

lemma firstSome_unique:
  "Some s \<in> set xs \<Longrightarrow> (\<And>t. Some t \<in> set xs \<Longrightarrow> t = s) \<Longrightarrow> firstSome xs = Some s"
proof (induction xs)
  case Nil
  then show ?case by simp
next
  case (Cons a xs)
  show ?case
  proof (cases a)
    case None
    then have "Some s \<in> set xs" using Cons.prems(1) by simp
    moreover have "\<And>t. Some t \<in> set xs \<Longrightarrow> t = s" using Cons.prems(2) by simp
    ultimately have "firstSome xs = Some s" by (rule Cons.IH)
    then show ?thesis using None by simp
  next
    case (Some t)
    then have "t = s" using Cons.prems(2) [of t] by simp
    then show ?thesis using Some by simp
  qed
qed

lemma idsOf_set: "set (idsOf cs) = eid ` set cs \<union> (\<Union>c\<in>set cs. set (idsOf (children c)))"
  by (induction cs) (auto simp: idsOf_Cons ids_element)

lemma childrenHolding_Some:
  "childrenHolding x e = Some s \<Longrightarrow> x \<in> set (idsOf (children e)) \<and> x \<in> eid ` set s"
proof (induction e)
  case (SElement i v sb t cs)
  show ?case
  proof (cases "x \<in> eid ` set cs")
    case True
    then have "x \<in> set (idsOf cs)" by (auto simp: idsOf_set [of cs])
    moreover have "s = cs" using True SElement.prems by simp
    ultimately show ?thesis using True by simp
  next
    case False
    then have "firstSome (map (childrenHolding x) cs) = Some s" using SElement.prems by simp
    then obtain c where c: "c \<in> set cs" "childrenHolding x c = Some s"
      using firstSome_Some by fastforce
    then have "x \<in> set (idsOf (children c)) \<and> x \<in> eid ` set s" using SElement.IH by simp
    then show ?thesis using c(1) by (auto simp: idsOf_set [of cs])
  qed
qed

lemma childrenHolding_None:
  "childrenHolding x e = None \<Longrightarrow> x \<notin> set (idsOf (children e))"
proof (induction e)
  case (SElement i v sb t cs)
  have top: "x \<notin> eid ` set cs" using SElement.prems by (auto split: if_splits)
  then have "firstSome (map (childrenHolding x) cs) = None" using SElement.prems by simp
  then have "\<And>c. c \<in> set cs \<Longrightarrow> childrenHolding x c = None" by (simp add: firstSome_None)
  then have "\<And>c. c \<in> set cs \<Longrightarrow> x \<notin> set (idsOf (children c))" using SElement.IH by simp
  then show ?case using top by (auto simp: idsOf_set [of cs])
qed

lemma reorder_absent:
  "(\<And>cs. x \<notin> eid ` set cs \<Longrightarrow> f cs = cs) \<Longrightarrow> x \<notin> set (idsOf (children e))
   \<Longrightarrow> reorder f e = e"
proof (induction e)
  case (SElement i v sb t cs)
  have x: "x \<notin> set (idsOf cs)" using SElement.prems(2) by simp
  then have "\<And>c. c \<in> set cs \<Longrightarrow> reorder f c = c"
    using SElement.IH SElement.prems(1) by (auto simp: idsOf_set [of cs])
  then have "map (reorder f) cs = cs" by (simp add: map_idI)
  moreover have "x \<notin> eid ` set cs" using x by (auto simp: idsOf_set [of cs])
  ultimately show ?case using SElement.prems(1) by simp
qed

lemma moveBelow_absent: "x \<notin> set (idsOf (children e)) \<Longrightarrow> moveBelow x n e = e"
proof (induction e)
  case (SElement i v sb t cs)
  have x: "x \<notin> set (idsOf cs)" using SElement.prems by simp
  then have "\<And>c. c \<in> set cs \<Longrightarrow> moveBelow x n c = c"
    using SElement.IH by (auto simp: idsOf_set [of cs])
  then have "map (moveBelow x n) cs = cs" by (simp add: map_idI)
  moreover have "x \<notin> eid ` set cs" using x by (auto simp: idsOf_set [of cs])
  ultimately show ?case by simp
qed

text \<open>In a forest with distinct ids, an id that is at the top is not below, and an id
  is below at most one of the trees.\<close>

lemma distinct_top_not_below:
  "distinct (idsOf cs) \<Longrightarrow> c \<in> set cs \<Longrightarrow> x \<in> eid ` set cs \<Longrightarrow> x \<notin> set (idsOf (children c))"
proof (induction cs)
  case Nil
  then show ?case by simp
next
  case (Cons d cs)
  have dd: "distinct (map eid (elements d))" "distinct (idsOf cs)"
    "set (map eid (elements d)) \<inter> set (idsOf cs) = {}"
    using Cons.prems(1) by (simp_all add: idsOf_Cons)
  show ?case
  proof
    assume below: "x \<in> set (idsOf (children c))"
    have inc: "set (idsOf (children c)) \<subseteq> (if c = d then set (map eid (elements d)) else set (idsOf cs))"
      using Cons.prems(2) by (auto simp: ids_element idsOf_set [of cs])
    show False
    proof (cases "x = eid d")
      case True
      show False
      proof (cases "c = d")
        case True
        then show False using below \<open>x = eid d\<close> dd(1) by (simp add: ids_element)
      next
        case False
        then have "x \<in> set (idsOf cs)" using inc below by auto
        then show False using dd(3) \<open>x = eid d\<close> by (auto simp: ids_element)
      qed
    next
      case False
      then have xt: "x \<in> eid ` set cs" using Cons.prems(3) by auto
      show False
      proof (cases "c = d")
        case True
        then have "x \<in> set (map eid (elements d))" using below by (simp add: ids_element)
        moreover have "x \<in> set (idsOf cs)" using xt by (auto simp: idsOf_set [of cs])
        ultimately show False using dd(3) by auto
      next
        case False
        then have "c \<in> set cs" using Cons.prems(2) by simp
        then show False using Cons.IH [OF dd(2) _ xt] below by simp
      qed
    qed
  qed
qed

lemma distinct_below_unique:
  "distinct (idsOf cs) \<Longrightarrow> c \<in> set cs \<Longrightarrow> d \<in> set cs
   \<Longrightarrow> x \<in> set (map eid (elements c)) \<Longrightarrow> x \<in> set (map eid (elements d)) \<Longrightarrow> c = d"
proof (induction cs)
  case Nil
  then show ?case by simp
next
  case (Cons a cs)
  have dd: "distinct (idsOf cs)" "set (map eid (elements a)) \<inter> set (idsOf cs) = {}"
    using Cons.prems(1) by (simp_all add: idsOf_Cons)
  have in_cs: "\<And>e. e \<in> set cs \<Longrightarrow> x \<in> set (map eid (elements e)) \<Longrightarrow> x \<in> set (idsOf cs)"
    using idsOf_member by blast
  show ?case
  proof (cases "c = a")
    case True
    show ?thesis
    proof (cases "d = a")
      case True
      then show ?thesis using \<open>c = a\<close> by simp
    next
      case False
      then have "x \<in> set (idsOf cs)" using in_cs Cons.prems by auto
      then show ?thesis using dd(2) Cons.prems(4) \<open>c = a\<close> by auto
    qed
  next
    case False
    then have c: "c \<in> set cs" using Cons.prems by simp
    show ?thesis
    proof (cases "d = a")
      case True
      have "x \<in> set (idsOf cs)" using in_cs [OF c] Cons.prems by auto
      then show ?thesis using dd(2) Cons.prems(5) True by auto
    next
      case False
      then show ?thesis using Cons.IH [OF dd(1) c] Cons.prems by auto
    qed
  qed
qed

subsection \<open>The moves of the commands as rearrangements\<close>

lemma map_reorder_top:
  assumes d: "distinct (idsOf cs)" and x: "x \<in> eid ` set cs"
    and f: "\<And>ds. x \<notin> eid ` set ds \<Longrightarrow> f ds = ds"
  shows "map (reorder f) cs = cs"
proof -
  have "\<And>c. c \<in> set cs \<Longrightarrow> reorder f c = c"
    using distinct_top_not_below [OF d _ x] reorder_absent [of x f] f by simp
  then show ?thesis by (simp add: map_idI)
qed

lemma moveBelow_reorder:
  "distinct (map eid (elements e)) \<Longrightarrow> moveBelow x n e = reorder (moveChild x n) e"
proof (induction e)
  case (SElement i v sb t cs)
  have d: "distinct (idsOf cs)" using distinct_children [OF SElement.prems] by simp
  show ?case
  proof (cases "x \<in> eid ` set cs")
    case True
    have "map (reorder (moveChild x n)) cs = cs"
      using d True by (rule map_reorder_top) (rule moveChild_absent)
    then show ?thesis using True by simp
  next
    case False
    have "map (moveBelow x n) cs = map (reorder (moveChild x n)) cs"
      using SElement.IH idsOf_distinct_member [OF d] by simp
    moreover have "x \<notin> eid ` set (map (reorder (moveChild x n)) cs)"
      using False by (simp add: image_comp comp_def)
    then have "moveChild x n (map (reorder (moveChild x n)) cs) = map (reorder (moveChild x n)) cs"
      by (rule moveChild_absent)
    ultimately show ?thesis using False by simp
  qed
qed

lemma moveInParent_reorderF:
  assumes d: "distinct (idsOf F)"
  shows "moveInParent x n F = reorderF (moveChild x n) F"
proof (cases "x \<in> eid ` set F")
  case True
  have "map (reorder (moveChild x n)) F = F"
    using d True by (rule map_reorder_top) (rule moveChild_absent)
  then show ?thesis using True by (simp add: moveInParent_def reorderF_def)
next
  case False
  have "map (moveBelow x n) F = map (reorder (moveChild x n)) F"
    using moveBelow_reorder idsOf_distinct_member [OF d] by simp
  moreover have "x \<notin> eid ` set (map (reorder (moveChild x n)) F)"
    using False by (simp add: image_comp comp_def)
  then have "moveChild x n (map (reorder (moveChild x n)) F) = map (reorder (moveChild x n)) F"
    by (rule moveChild_absent)
  ultimately show ?thesis using False
    by (simp add: moveInParent_def reorderF_def)
qed

text \<open>What \<open>redo\<close> does with one element, in one tree and in the forest.\<close>

lemma toEnd_children:
  assumes d: "distinct (idsOf cs)" and x: "x \<notin> eid ` set cs"
    and ih: "\<And>c. c \<in> set cs \<Longrightarrow>
       reorder (toEnd x) c =
         (case childrenHolding x c of None \<Rightarrow> c
          | Some sibs \<Rightarrow> moveBelow x (int (length sibs) - 1) c)"
  shows "map (reorder (toEnd x)) cs =
     (case firstSome (map (childrenHolding x) cs) of None \<Rightarrow> cs
      | Some sibs \<Rightarrow> map (moveBelow x (int (length sibs) - 1)) cs)"
proof (cases "firstSome (map (childrenHolding x) cs)")
  case None
  then have "\<And>c. c \<in> set cs \<Longrightarrow> childrenHolding x c = None"
    by (simp add: firstSome_None)
  then have "\<And>c. c \<in> set cs \<Longrightarrow> reorder (toEnd x) c = c" using ih by simp
  then show ?thesis using None by (simp add: map_idI)
next
  case (Some sibs)
  then obtain c0 where c0: "c0 \<in> set cs" "childrenHolding x c0 = Some sibs"
    using firstSome_Some by fastforce
  have x0: "x \<in> set (map eid (elements c0))"
    using childrenHolding_Some [OF c0(2)] by (simp add: ids_element)
  have "\<And>c. c \<in> set cs \<Longrightarrow> reorder (toEnd x) c = moveBelow x (int (length sibs) - 1) c"
  proof -
    fix c assume c: "c \<in> set cs"
    show "reorder (toEnd x) c = moveBelow x (int (length sibs) - 1) c"
    proof (cases "childrenHolding x c")
      case None
      then have "x \<notin> set (idsOf (children c))" by (rule childrenHolding_None)
      then show ?thesis using ih [OF c] None by (simp add: moveBelow_absent)
    next
      case (Some s')
      have "x \<in> set (map eid (elements c))"
        using childrenHolding_Some [OF Some] by (simp add: ids_element)
      then have "c = c0" using distinct_below_unique [OF d c c0(1) _ x0] by simp
      then have "s' = sibs" using Some c0(2) by simp
      then show ?thesis using ih [OF c] Some by simp
    qed
  qed
  then show ?thesis using Some by simp
qed

lemma toEnd_below:
  "distinct (map eid (elements e)) \<Longrightarrow>
   reorder (toEnd x) e =
     (case childrenHolding x e of None \<Rightarrow> e
      | Some sibs \<Rightarrow> moveBelow x (int (length sibs) - 1) e)"
proof (induction e)
  case (SElement i v sb t cs)
  have d: "distinct (idsOf cs)" using distinct_children [OF SElement.prems] by simp
  show ?case
  proof (cases "x \<in> eid ` set cs")
    case True
    have "map (reorder (toEnd x)) cs = cs"
      using d True by (rule map_reorder_top) (rule toEnd_absent)
    then show ?thesis using True by (simp add: moveChild_toEnd)
  next
    case False
    have m: "map (reorder (toEnd x)) cs =
       (case firstSome (map (childrenHolding x) cs) of None \<Rightarrow> cs
        | Some sibs \<Rightarrow> map (moveBelow x (int (length sibs) - 1)) cs)"
      using d False SElement.IH idsOf_distinct_member [OF d] by (intro toEnd_children) simp_all
    have "x \<notin> eid ` set (map (reorder (toEnd x)) cs)"
      using False by (simp add: image_comp comp_def)
    then have "toEnd x (map (reorder (toEnd x)) cs) = map (reorder (toEnd x)) cs"
      by (rule toEnd_absent)
    then show ?thesis using False m by (simp split: option.split)
  qed
qed

lemma moveToEnd_reorderF:
  assumes d: "distinct (idsOf F)"
  shows "moveToEnd x F = reorderF (toEnd x) F"
proof (cases "x \<in> eid ` set F")
  case True
  have "map (reorder (toEnd x)) F = F"
    using d True by (rule map_reorder_top) (rule toEnd_absent)
  then show ?thesis using True
    by (simp add: moveToEnd_def siblings_def moveInParent_def reorderF_def moveChild_toEnd)
next
  case False
  have m: "map (reorder (toEnd x)) F =
     (case firstSome (map (childrenHolding x) F) of None \<Rightarrow> F
      | Some sibs \<Rightarrow> map (moveBelow x (int (length sibs) - 1)) F)"
    using d False toEnd_below idsOf_distinct_member [OF d] by (intro toEnd_children) simp_all
  have "x \<notin> eid ` set (map (reorder (toEnd x)) F)"
    using False by (simp add: image_comp comp_def)
  then have "toEnd x (map (reorder (toEnd x)) F) = map (reorder (toEnd x)) F"
    by (rule toEnd_absent)
  then show ?thesis using False m
    by (simp add: moveToEnd_def siblings_def moveInParent_def reorderF_def split: option.split)
qed

subsection \<open>redo and undo as one change of the tree\<close>

lemma reorder_id: "reorder (\<lambda>cs. cs) e = e"
  by (induction e) (simp add: map_idI)

lemma reorderF_id: "reorderF (\<lambda>cs. cs) F = F"
  by (simp add: reorderF_def reorder_id map_idI)

lemma natural_raiseAll: "natural (raiseAll sels)"
  unfolding raiseAll_def by (rule natural_fold) (rule natural_toEnd)

lemma permuting_raiseAll: "permuting (raiseAll sels)"
  unfolding raiseAll_def by (rule permuting_fold) (rule permuting_toEnd)

lemma natural_restoreAll: "natural (restoreAll sels)"
  unfolding restoreAll_def by (rule natural_fold) (rule natural_moveChild)

lemma permuting_restoreAll: "permuting (restoreAll sels)"
  unfolding restoreAll_def by (rule permuting_fold) (rule permuting_moveChild)

lemma fold_moveToEnd:
  "distinct (idsOf F)
   \<Longrightarrow> fold (\<lambda>selection. moveToEnd (element selection)) sels F = reorderF (raiseAll sels) F"
proof (induction sels arbitrary: F)
  case Nil
  then show ?case by (simp add: raiseAll_def reorderF_id id_def)
next
  case (Cons a sels)
  let ?F1 = "reorderF (toEnd (element a)) F"
  have m: "moveToEnd (element a) F = ?F1" using Cons.prems by (rule moveToEnd_reorderF)
  have d: "distinct (idsOf ?F1)" using permuting_toEnd Cons.prems by (rule distinct_reorderF)
  have "fold (\<lambda>selection. moveToEnd (element selection)) (a # sels) F
      = fold (\<lambda>selection. moveToEnd (element selection)) sels ?F1"
    by (simp add: m)
  also have "\<dots> = reorderF (raiseAll sels) ?F1" by (rule Cons.IH [OF d])
  also have "\<dots> = reorderF (raiseAll sels \<circ> toEnd (element a)) F"
    by (rule reorderF_reorderF) (rule natural_toEnd)
  also have "raiseAll sels \<circ> toEnd (element a) = raiseAll (a # sels)"
    by (simp add: raiseAll_def)
  finally show ?case .
qed

lemma fold_undo_moves:
  "distinct (idsOf F)
   \<Longrightarrow> fold (\<lambda>selection f. moveInParent (element selection) (index selection)
                (map (setSelected (element selection) False) f)) sels F
       = map (reflag (\<lambda>i s. if i \<in> element ` set sels then False else s))
           (reorderF (fold (\<lambda>selection. moveChild (element selection) (index selection)) sels) F)"
proof (induction sels arbitrary: F)
  case Nil
  then show ?case by (simp add: reorderF_id id_def reflag_id)
next
  case (Cons a sels)
  let ?op = "\<lambda>selection f. moveInParent (element selection) (index selection)
                (map (setSelected (element selection) False) f)"
  let ?A = "\<lambda>i s. if i = element a then False else s"
  let ?S = "\<lambda>i s. if i \<in> element ` set sels then False else s"
  let ?mc = "moveChild (element a) (index a)"
  let ?M = "fold (\<lambda>selection. moveChild (element selection) (index selection)) sels"
  have d1: "distinct (idsOf (map (setSelected (element a) False) F))"
    using Cons.prems by (simp add: idsOf_setSelected)
  have "?op a F = reorderF ?mc (map (setSelected (element a) False) F)"
    using d1 by (rule moveInParent_reorderF)
  also have "\<dots> = reorderF ?mc (map (reflag ?A) F)"
    by (simp only: map_setSelected_reflag [OF Cons.prems])
  also have "\<dots> = map (reflag ?A) (reorderF ?mc F)"
    by (rule reflag_reorderF [symmetric]) (rule natural_moveChild)
  finally have step: "?op a F = map (reflag ?A) (reorderF ?mc F)" .
  have d2: "distinct (idsOf (?op a F))"
    unfolding step using Cons.prems
    by (simp add: idsOf_reflag distinct_reorderF permuting_moveChild)
  have nM: "natural ?M" by (rule natural_fold) (rule natural_moveChild)
  have "fold ?op (a # sels) F = fold ?op sels (?op a F)" by simp
  also have "\<dots> = map (reflag ?S) (reorderF ?M (?op a F))" by (rule Cons.IH [OF d2])
  also have "\<dots> = map (reflag ?S) (reorderF ?M (map (reflag ?A) (reorderF ?mc F)))"
    by (simp only: step)
  also have "\<dots> = map (reflag ?S) (map (reflag ?A) (reorderF ?M (reorderF ?mc F)))"
    by (simp only: reflag_reorderF [OF nM])
  also have "\<dots> = map (reflag (\<lambda>i s. ?S i (?A i s))) (reorderF (?M \<circ> ?mc) F)"
    by (simp add: reflag_reflag reorderF_reorderF [OF natural_moveChild])
  also have "(\<lambda>i s. ?S i (?A i s)) = (\<lambda>i s. if i \<in> element ` set (a # sels) then False else s)"
    by (auto simp: fun_eq_iff)
  also have "?M \<circ> ?mc = fold (\<lambda>selection. moveChild (element selection) (index selection)) (a # sels)"
    by simp
  finally show ?case .
qed

lemma redoForest_change:
  assumes d: "distinct (idsOf F)"
  shows "redoForest c F = map (reflag (redoFlags c)) (reorderF (raiseAll (cmdSelected c)) F)"
proof -
  let ?F1 = "reorderF (raiseAll (cmdSelected c)) F"
  have d1: "distinct (idsOf ?F1)" using permuting_raiseAll d by (rule distinct_reorderF)
  let ?F2 = "map (reflag (\<lambda>i s. if i \<in> element ` set (cmdDeselected c) then False else s)) ?F1"
  have d2: "distinct (idsOf ?F2)" using d1 by (simp add: idsOf_reflag)
  have "redoForest c F =
     fold (\<lambda>selection. map (setSelected (element selection) True)) (cmdSelected c)
       (fold (\<lambda>selection. map (setSelected (element selection) False)) (cmdDeselected c) ?F1)"
    by (simp add: redoForest_def Let_def fold_moveToEnd [OF d])
  also have "\<dots> = fold (\<lambda>selection. map (setSelected (element selection) True)) (cmdSelected c) ?F2"
    by (simp only: fold_setSelected_reflag [OF d1])
  also have "\<dots> = map (reflag (\<lambda>i s. if i \<in> element ` set (cmdSelected c) then True else s)) ?F2"
    by (rule fold_setSelected_reflag [OF d2])
  also have "\<dots> = map (reflag (\<lambda>i s. if i \<in> element ` set (cmdSelected c) then True
         else if i \<in> element ` set (cmdDeselected c) then False else s)) ?F1"
    unfolding map_map comp_def reflag_reflag by simp
  also have "(\<lambda>i s. if i \<in> element ` set (cmdSelected c) then True
         else if i \<in> element ` set (cmdDeselected c) then False else s) = redoFlags c"
    by (simp add: fun_eq_iff redoFlags_def)
  finally show ?thesis .
qed

lemma undoForest_change:
  assumes d: "distinct (idsOf F)"
  shows "undoForest c F = map (reflag (undoFlags c)) (reorderF (restoreAll (cmdSelected c)) F)"
proof -
  let ?F1 = "map (reflag (\<lambda>i s. if i \<in> element ` set (rev (cmdSelected c)) then False else s))
              (reorderF (restoreAll (cmdSelected c)) F)"
  have d1: "distinct (idsOf ?F1)"
    using d by (simp add: idsOf_reflag distinct_reorderF permuting_restoreAll)
  have "undoForest c F =
     fold (\<lambda>selection. map (setSelected (element selection) True)) (rev (cmdDeselected c)) ?F1"
    by (simp add: undoForest_def Let_def fold_undo_moves [OF d] restoreAll_def)
  also have "\<dots> = map (reflag (\<lambda>i s. if i \<in> element ` set (rev (cmdDeselected c)) then True else s)) ?F1"
    by (rule fold_setSelected_reflag [OF d1])
  also have "\<dots> = map (reflag (\<lambda>i s. if i \<in> element ` set (cmdDeselected c) then True
         else if i \<in> element ` set (cmdSelected c) then False else s))
       (reorderF (restoreAll (cmdSelected c)) F)"
    unfolding map_map comp_def reflag_reflag by simp
  also have "(\<lambda>i s. if i \<in> element ` set (cmdDeselected c) then True
         else if i \<in> element ` set (cmdSelected c) then False else s) = undoFlags c"
    by (simp add: fun_eq_iff undoFlags_def)
  finally show ?thesis .
qed

subsection \<open>Moving to the end absorbs earlier moves\<close>

lemma find_app: "find P (xs @ ys) = (case find P xs of None \<Rightarrow> find P ys | Some a \<Rightarrow> Some a)"
  by (induction xs) simp_all

lemma find_skip: "\<not> P c \<Longrightarrow> find P (xs @ c # ys) = find P (xs @ ys)"
  by (induction xs) simp_all

lemma find_filter_imp: "(\<And>d. P d \<Longrightarrow> Q d) \<Longrightarrow> find P (filter Q xs) = find P xs"
  by (induction xs) auto

lemma filter_skip: "\<not> P c \<Longrightarrow> filter P (xs @ c # ys) = filter P (xs @ ys)"
  by simp

lemma filter_filter_imp: "(\<And>d. P d \<Longrightarrow> Q d) \<Longrightarrow> filter P (filter Q xs) = filter P xs"
  by (induction xs) auto

lemma find_moveChild: "find (\<lambda>c. eid c = y) (moveChild x n cs) = find (\<lambda>c. eid c = y) cs"
proof (cases "find (\<lambda>c. eid c = x) cs")
  case None
  then show ?thesis by (simp add: moveChild_def)
next
  case (Some c)
  have c: "eid c = x" using find_Some_eid [OF Some] by simp
  let ?o = "filter (\<lambda>d. eid d \<noteq> x) cs"
  have mc: "moveChild x n cs = take (nat n) ?o @ c # drop (nat n) ?o"
    using Some by (simp add: moveChild_def Let_def)
  show ?thesis
  proof (cases "y = x")
    case True
    have "find (\<lambda>c. eid c = x) (take (nat n) ?o) = None"
      by (auto simp: find_None_iff dest: in_set_takeD)
    then have "find (\<lambda>c. eid c = x) (take (nat n) ?o @ c # drop (nat n) ?o) = Some c"
      using c by (simp add: find_app)
    then show ?thesis using True Some mc by simp
  next
    case False
    then have "find (\<lambda>c. eid c = y) (take (nat n) ?o @ c # drop (nat n) ?o)
        = find (\<lambda>c. eid c = y) (take (nat n) ?o @ drop (nat n) ?o)"
      using c by (intro find_skip) simp
    also have "\<dots> = find (\<lambda>c. eid c = y) cs"
      using False by (simp only: append_take_drop_id) (rule find_filter_imp, simp)
    finally show ?thesis using mc by simp
  qed
qed

lemma filter_moveChild:
  assumes "x \<in> S"
  shows "filter (\<lambda>c. eid c \<notin> S) (moveChild x n cs) = filter (\<lambda>c. eid c \<notin> S) cs"
proof (cases "find (\<lambda>c. eid c = x) cs")
  case None
  then show ?thesis by (simp add: moveChild_def)
next
  case (Some c)
  have c: "eid c = x" using find_Some_eid [OF Some] by simp
  let ?o = "filter (\<lambda>d. eid d \<noteq> x) cs"
  have mc: "moveChild x n cs = take (nat n) ?o @ c # drop (nat n) ?o"
    using Some by (simp add: moveChild_def Let_def)
  have "filter (\<lambda>c. eid c \<notin> S) (take (nat n) ?o @ c # drop (nat n) ?o)
      = filter (\<lambda>c. eid c \<notin> S) (take (nat n) ?o @ drop (nat n) ?o)"
    using c assms by (intro filter_skip) simp
  also have "\<dots> = filter (\<lambda>c. eid c \<notin> S) cs"
    using assms by (simp only: append_take_drop_id) (rule filter_filter_imp, auto)
  finally show ?thesis using mc by simp
qed

lemma find_toEnd: "find (\<lambda>c. eid c = y) (toEnd x cs) = find (\<lambda>c. eid c = y) cs"
proof (cases "find (\<lambda>c. eid c = x) cs")
  case None
  then show ?thesis by (simp add: toEnd_def)
next
  case (Some c)
  have c: "eid c = x" using find_Some_eid [OF Some] by simp
  show ?thesis
  proof (cases "y = x")
    case True
    have "find (\<lambda>c. eid c = x) (filter (\<lambda>d. eid d \<noteq> x) cs) = None"
      by (auto simp: find_None_iff)
    then show ?thesis using True Some c by (simp add: toEnd_def find_app)
  next
    case False
    have "find (\<lambda>c. eid c = y) (filter (\<lambda>d. eid d \<noteq> x) cs @ [c])
        = find (\<lambda>c. eid c = y) (filter (\<lambda>d. eid d \<noteq> x) cs @ [])"
      using c False by (intro find_skip) simp
    moreover have "find (\<lambda>c. eid c = y) (filter (\<lambda>d. eid d \<noteq> x) cs) = find (\<lambda>c. eid c = y) cs"
      using False by (intro find_filter_imp) simp
    ultimately show ?thesis using Some by (simp add: toEnd_def)
  qed
qed

lemma filter_toEnd:
  assumes "x \<in> S"
  shows "filter (\<lambda>c. eid c \<notin> S) (toEnd x cs) = filter (\<lambda>c. eid c \<notin> S) cs"
proof (cases "find (\<lambda>c. eid c = x) cs")
  case None
  then show ?thesis by (simp add: toEnd_def)
next
  case (Some c)
  have c: "eid c = x" using find_Some_eid [OF Some] by simp
  have "filter (\<lambda>c. eid c \<notin> S) (filter (\<lambda>d. eid d \<noteq> x) cs) = filter (\<lambda>c. eid c \<notin> S) cs"
    using assms by (intro filter_filter_imp) auto
  then show ?thesis using Some c assms by (simp add: toEnd_def)
qed

lemma alike_refl: "alike S cs cs"
  by (simp add: alike_def)

lemma alike_trans: "alike S cs ds \<Longrightarrow> alike S ds es \<Longrightarrow> alike S cs es"
  by (simp add: alike_def)

lemma alike_moveChild: "x \<in> S \<Longrightarrow> alike S (moveChild x n cs) cs"
  by (simp add: alike_def filter_moveChild find_moveChild)

lemma alike_toEnd: "x \<in> S \<Longrightarrow> alike S (toEnd x cs) cs"
  by (simp add: alike_def filter_toEnd find_toEnd)

lemma alike_fold:
  "(\<And>a ds. a \<in> set xs \<Longrightarrow> alike S (F a ds) ds) \<Longrightarrow> alike S (fold F xs cs) cs"
proof (induction xs arbitrary: cs)
  case Nil
  then show ?case by (simp add: alike_refl)
next
  case (Cons a xs)
  have "alike S (fold F xs (F a cs)) (F a cs)" using Cons by simp
  moreover have "alike S (F a cs) cs" using Cons.prems by simp
  ultimately show ?case using alike_trans by simp
qed

lemma alike_raiseAll: "alike (element ` set sels) (raiseAll sels cs) cs"
  unfolding raiseAll_def by (rule alike_fold) (simp add: alike_toEnd)

lemma alike_restoreAll: "alike (element ` set sels) (restoreAll sels cs) cs"
  unfolding restoreAll_def by (rule alike_fold) (simp add: alike_moveChild)

lemma alike_toEnd_step:
  assumes a: "alike (insert x S) cs ds"
  shows "alike S (toEnd x cs) (toEnd x ds)"
proof -
  have fx: "find (\<lambda>c. eid c = x) cs = find (\<lambda>c. eid c = x) ds"
    and fi: "filter (\<lambda>c. eid c \<notin> insert x S) cs = filter (\<lambda>c. eid c \<notin> insert x S) ds"
    and fy: "\<And>y. y \<in> S \<Longrightarrow> find (\<lambda>c. eid c = y) cs = find (\<lambda>c. eid c = y) ds"
    using a by (simp_all add: alike_def)
  have split: "\<And>es. filter (\<lambda>c. eid c \<notin> S) (filter (\<lambda>d. eid d \<noteq> x) es)
      = filter (\<lambda>c. eid c \<notin> insert x S) es"
    by (auto simp: filter_filter intro: filter_cong)
  have "filter (\<lambda>c. eid c \<notin> S) (toEnd x cs) = filter (\<lambda>c. eid c \<notin> S) (toEnd x ds)"
  proof (cases "find (\<lambda>c. eid c = x) cs")
    case None
    then have n1: "x \<notin> eid ` set cs" using find_None_eid [of x cs] by blast
    have n2: "x \<notin> eid ` set ds" using None fx find_None_eid [of x ds] by simp
    have "filter (\<lambda>c. eid c \<notin> S) cs = filter (\<lambda>c. eid c \<notin> insert x S) cs"
      using n1 by (intro filter_cong) auto
    moreover have "filter (\<lambda>c. eid c \<notin> S) ds = filter (\<lambda>c. eid c \<notin> insert x S) ds"
      using n2 by (intro filter_cong) auto
    ultimately show ?thesis using fi n1 n2 by (simp add: toEnd_absent)
  next
    case (Some c)
    then have "toEnd x cs = filter (\<lambda>d. eid d \<noteq> x) cs @ [c]"
      "toEnd x ds = filter (\<lambda>d. eid d \<noteq> x) ds @ [c]"
      using fx by (simp_all add: toEnd_def)
    then show ?thesis using fi by (simp add: split)
  qed
  then show ?thesis using fy by (simp add: alike_def find_toEnd)
qed

lemma fold_toEnd_alike:
  "alike (set xs) cs ds \<Longrightarrow> fold toEnd xs cs = fold toEnd xs ds"
proof (induction xs arbitrary: cs ds)
  case Nil
  then show ?case by (simp add: alike_def)
next
  case (Cons x xs)
  have "alike (set xs) (toEnd x cs) (toEnd x ds)"
    using Cons.prems by (intro alike_toEnd_step) simp
  then show ?case using Cons.IH by simp
qed

lemma raiseAll_ids: "raiseAll sels = fold toEnd (map element sels)"
  by (simp add: raiseAll_def fold_map comp_def)

lemma raiseAll_alike:
  "alike (element ` set sels) cs ds \<Longrightarrow> raiseAll sels cs = raiseAll sels ds"
  unfolding raiseAll_ids by (rule fold_toEnd_alike) simp

lemma raiseAll_absorbs: "raiseAll sels (restoreAll sels (raiseAll sels cs)) = raiseAll sels cs"
proof (rule raiseAll_alike)
  show "alike (element ` set sels) (restoreAll sels (raiseAll sels cs)) cs"
    using alike_restoreAll alike_raiseAll by (rule alike_trans)
qed

subsection \<open>redo after undo\<close>

lemma redo_undo_redo_forest:
  assumes d: "distinct (idsOf F)"
    and c': "cmdSelected c' = cmdSelected c" "set (cmdDeselected c') = set (cmdDeselected c)"
  shows "redoForest c' (undoForest c (redoForest c F)) = redoForest c F"
proof -
  let ?R = "raiseAll (cmdSelected c)" and ?M = "restoreAll (cmdSelected c)"
  let ?F1 = "reorderF ?R F"
  have d1: "distinct (idsOf (redoForest c F))"
    unfolding redoForest_change [OF d]
    using d by (simp add: idsOf_reflag distinct_reorderF permuting_raiseAll)
  have d2: "distinct (idsOf (undoForest c (redoForest c F)))"
    unfolding undoForest_change [OF d1]
    using d1 by (simp add: idsOf_reflag distinct_reorderF permuting_restoreAll)
  have "redoForest c' (undoForest c (redoForest c F))
      = map (reflag (redoFlags c')) (reorderF ?R (undoForest c (redoForest c F)))"
    by (simp only: redoForest_change [OF d2] c')
  also have "\<dots> = map (reflag (redoFlags c'))
          (reorderF ?R (map (reflag (undoFlags c)) (reorderF ?M (redoForest c F))))"
    by (simp only: undoForest_change [OF d1])
  also have "\<dots> = map (reflag (redoFlags c'))
          (reorderF ?R (map (reflag (undoFlags c))
             (reorderF ?M (map (reflag (redoFlags c)) (reorderF ?R F)))))"
    by (simp only: redoForest_change [OF d])
  also have "\<dots> = map (reflag (redoFlags c'))
          (map (reflag (undoFlags c)) (map (reflag (redoFlags c))
             (reorderF ?R (reorderF ?M (reorderF ?R F)))))"
    by (simp only: reflag_reorderF [OF natural_raiseAll] reflag_reorderF [OF natural_restoreAll])
  also have "reorderF ?R (reorderF ?M (reorderF ?R F)) = reorderF (?R \<circ> (?M \<circ> ?R)) F"
    by (simp only: reorderF_reorderF [OF natural_raiseAll]
        reorderF_reorderF [OF natural_comp [OF natural_restoreAll natural_raiseAll]])
  also have "?R \<circ> (?M \<circ> ?R) = ?R"
    by (simp add: fun_eq_iff raiseAll_absorbs)
  also have "map (reflag (redoFlags c')) (map (reflag (undoFlags c)) (map (reflag (redoFlags c)) ?F1))
      = map (reflag (\<lambda>i s. redoFlags c' i (undoFlags c i (redoFlags c i s)))) ?F1"
    unfolding map_map comp_def reflag_reflag by simp
  also have "(\<lambda>i s. redoFlags c' i (undoFlags c i (redoFlags c i s))) = redoFlags c"
    using c' by (auto simp: fun_eq_iff redoFlags_def undoFlags_def)
  finally show ?thesis by (simp only: redoForest_change [OF d])
qed

subsection \<open>Looking an element up after a change\<close>

lemma find_unique:
  "distinct (map eid L) \<Longrightarrow> e \<in> set L \<Longrightarrow> find (\<lambda>c. eid c = eid e) L = Some e"
proof (induction L)
  case Nil
  then show ?case by simp
next
  case (Cons a L)
  show ?case
  proof (cases "a = e")
    case True
    then show ?thesis by simp
  next
    case False
    then have e: "e \<in> set L" using Cons.prems by simp
    then have "eid a \<noteq> eid e" using Cons.prems(1) by force
    then show ?thesis using Cons e by simp
  qed
qed

lemma find_image:
  assumes d: "distinct (map eid L)" and d': "distinct (map eid L')"
    and s: "set L' = h ` set L" and h: "\<And>e. eid (h e) = eid e"
  shows "find (\<lambda>c. eid c = x) L' = map_option h (find (\<lambda>c. eid c = x) L)"
proof (cases "find (\<lambda>c. eid c = x) L")
  case None
  then have "x \<notin> eid ` set L" using find_None_eid [of x L] by blast
  then have "x \<notin> eid ` set L'" using s h by (auto simp: image_iff)
  then show ?thesis using None find_None_eid [of x L'] by simp
next
  case (Some e)
  have e: "e \<in> set L" "eid e = x" using find_Some_eid [OF Some] by simp_all
  then have "h e \<in> set L'" using s by simp
  then have "find (\<lambda>c. eid c = eid (h e)) L' = Some (h e)" using d' by (intro find_unique)
  then show ?thesis using Some e h by simp
qed

lemma getChildById_change:
  assumes w: "wellFormed m" and f: "natural f" "permuting f"
  shows "getChildById (m\<lparr>rootChildren := map (reflag g) (reorderF f (rootChildren m))\<rparr>) x
       = map_option (\<lambda>e. reflag g (reorder f e)) (getChildById m x)"
proof -
  let ?F = "rootChildren m"
  have d: "distinct (idsOf ?F)" using w by (simp add: wellFormed_def)
  have d1: "distinct (idsOf (map (reflag g) (reorderF f ?F)))"
    using d f by (simp add: idsOf_reflag distinct_reorderF)
  have "set (allChildren (reorderF f ?F)) = reorder f ` set (allChildren ?F)"
    using mset_allChildren_reorderF [OF f(2) d] by (metis set_image_mset set_mset_mset)
  then have "set (allChildren (map (reflag g) (reorderF f ?F)))
      = (\<lambda>e. reflag g (reorder f e)) ` set (allChildren ?F)"
    by (simp add: allChildren_reflag image_comp comp_def)
  then have "find (\<lambda>c. eid c = x) (allChildren (map (reflag g) (reorderF f ?F)))
      = map_option (\<lambda>e. reflag g (reorder f e)) (find (\<lambda>c. eid c = x) (allChildren ?F))"
    using d d1 by (intro find_image) (simp_all add: idsOf_def)
  then show ?thesis by (simp add: getChildById_def)
qed

lemma selected_change:
  "selected (reflag g (reorder f e)) = (if selectable e then g (eid e) (selected e) else selected e)"
  by (cases e) simp

lemma selectable_change: "selectable (reflag g (reorder f e)) = selectable e"
  by (cases e) simp

lemma variant_change: "variant (reflag g (reorder f e)) = variant e"
  by (cases e) simp

lemma wellFormed_change:
  assumes w: "wellFormed m" and f: "permuting f"
  shows "wellFormed (m\<lparr>rootChildren := map (reflag g) (reorderF f (rootChildren m))\<rparr>)"
proof -
  have d: "distinct (idsOf (rootChildren m))" using w by (simp add: wellFormed_def)
  have "set (idsOf (reorderF f (rootChildren m))) = set (idsOf (rootChildren m))"
    using idsOf_reorderF [OF f d] by (metis set_mset_mset)
  then show ?thesis using w d f by (simp add: wellFormed_def idsOf_reflag distinct_reorderF)
qed

subsection \<open>Sibling lists after a change\<close>

lemma firstSome_perm:
  assumes s: "set xs = set ys"
    and u: "\<And>s t. Some s \<in> set xs \<Longrightarrow> Some t \<in> set xs \<Longrightarrow> s = t"
  shows "firstSome xs = firstSome ys"
proof (cases "firstSome xs")
  case None
  then have "\<forall>x\<in>set ys. x = None" using s by (simp add: firstSome_None)
  then have "firstSome ys = None" by (simp add: firstSome_None)
  then show ?thesis using None by simp
next
  case (Some a)
  then have a: "Some a \<in> set xs" by (rule firstSome_Some)
  have "firstSome ys = Some a"
  proof (rule firstSome_unique)
    show "Some a \<in> set ys" using a s by simp
    show "\<And>t. Some t \<in> set ys \<Longrightarrow> t = a" using u a s by auto
  qed
  then show ?thesis using Some by simp
qed

lemma permuting_set: "permuting f \<Longrightarrow> distinct (map eid cs) \<Longrightarrow> set (f cs) = set cs"
  by (metis permuting_def set_mset_mset)

lemma childrenHolding_unique:
  assumes d: "distinct (idsOf cs)" and c: "c \<in> set cs" "c' \<in> set cs"
    and h: "childrenHolding y c = Some s" "childrenHolding y c' = Some t"
  shows "s = t"
proof -
  have "y \<in> set (map eid (elements c))" "y \<in> set (map eid (elements c'))"
    using childrenHolding_Some [OF h(1)] childrenHolding_Some [OF h(2)]
    by (simp_all add: ids_element)
  then have "c = c'" using distinct_below_unique [OF d c] by simp
  then show ?thesis using h by simp
qed

lemma firstSome_holding_reorder:
  assumes f: "permuting f" and d: "distinct (idsOf cs)"
    and ih: "\<And>c. c \<in> set cs \<Longrightarrow>
       childrenHolding y (reorder f c) = map_option G (childrenHolding y c)"
  shows "firstSome (map (childrenHolding y) (f (map (reorder f) cs)))
       = map_option G (firstSome (map (childrenHolding y) cs))"
proof -
  let ?ys = "map (reorder f) cs"
  have "distinct (map eid ?ys)" using distinct_idsOf_top [OF d] by (simp add: comp_def)
  then have s: "set (f ?ys) = set ?ys" using permuting_set [OF f] by simp
  have m: "map (childrenHolding y) ?ys = map (map_option G) (map (childrenHolding y) cs)"
    using ih by simp
  have "firstSome (map (childrenHolding y) ?ys) = firstSome (map (childrenHolding y) (f ?ys))"
  proof (rule firstSome_perm)
    show "set (map (childrenHolding y) ?ys) = set (map (childrenHolding y) (f ?ys))"
      unfolding set_map [of "childrenHolding y"] s ..
  next
    fix s t
    assume a: "Some s \<in> set (map (childrenHolding y) ?ys)" "Some t \<in> set (map (childrenHolding y) ?ys)"
    have "\<exists>c\<in>set cs. Some s = map_option G (childrenHolding y c)"
      using a(1) unfolding m by (simp add: image_iff)
    then obtain c s0 where c: "c \<in> set cs" and hs: "childrenHolding y c = Some s0" "G s0 = s"
      by (metis map_option_eq_Some)
    have "\<exists>c\<in>set cs. Some t = map_option G (childrenHolding y c)"
      using a(2) unfolding m by (simp add: image_iff)
    then obtain c' t0 where c': "c' \<in> set cs" and ht: "childrenHolding y c' = Some t0" "G t0 = t"
      by (metis map_option_eq_Some)
    have "s0 = t0" using childrenHolding_unique [OF d c c' hs(1) ht(1)] .
    then show "s = t" using hs ht by simp
  qed
  then show ?thesis unfolding m by (simp only: firstSome_map_option)
qed

lemma eid_set_reorder:
  assumes f: "permuting f" and d: "distinct (idsOf cs)"
  shows "eid ` set (f (map (reorder f) cs)) = eid ` set cs"
proof -
  have "distinct (map eid (map (reorder f) cs))" using distinct_idsOf_top [OF d] by (simp add: comp_def)
  then have "set (f (map (reorder f) cs)) = set (map (reorder f) cs)"
    using permuting_set [OF f] by simp
  then show ?thesis by (simp add: image_comp comp_def)
qed

lemma childrenHolding_reorder:
  "permuting f \<Longrightarrow> distinct (map eid (elements e)) \<Longrightarrow>
   childrenHolding y (reorder f e)
     = map_option (\<lambda>cs. f (map (reorder f) cs)) (childrenHolding y e)"
proof (induction e)
  case (SElement i v sb t cs)
  have d: "distinct (idsOf cs)" using distinct_children [OF SElement.prems(2)] by simp
  have top: "eid ` set (f (map (reorder f) cs)) = eid ` set cs"
    using SElement.prems(1) d by (rule eid_set_reorder)
  show ?case
  proof (cases "y \<in> eid ` set cs")
    case True
    then show ?thesis using top by simp
  next
    case False
    have "firstSome (map (childrenHolding y) (f (map (reorder f) cs)))
        = map_option (\<lambda>cs. f (map (reorder f) cs)) (firstSome (map (childrenHolding y) cs))"
      using SElement.prems(1) d
    proof (rule firstSome_holding_reorder)
      fix c assume "c \<in> set cs"
      then show "childrenHolding y (reorder f c)
          = map_option (\<lambda>cs. f (map (reorder f) cs)) (childrenHolding y c)"
        using SElement.IH SElement.prems(1) idsOf_distinct_member [OF d] by simp
    qed
    then show ?thesis using False top by simp
  qed
qed

lemma siblings_reorderF:
  assumes f: "permuting f" and d: "distinct (idsOf F)"
  shows "siblings y (reorderF f F) = map_option (\<lambda>cs. f (map (reorder f) cs)) (siblings y F)"
proof -
  have top: "eid ` set (f (map (reorder f) F)) = eid ` set F"
    using f d by (rule eid_set_reorder)
  show ?thesis
  proof (cases "y \<in> eid ` set F")
    case True
    then show ?thesis using top by (simp add: siblings_def reorderF_def)
  next
    case False
    have "firstSome (map (childrenHolding y) (f (map (reorder f) F)))
        = map_option (\<lambda>cs. f (map (reorder f) cs)) (firstSome (map (childrenHolding y) F))"
      using f d
    proof (rule firstSome_holding_reorder)
      fix c assume "c \<in> set F"
      then show "childrenHolding y (reorder f c)
          = map_option (\<lambda>cs. f (map (reorder f) cs)) (childrenHolding y c)"
        using childrenHolding_reorder f idsOf_distinct_member [OF d] by simp
    qed
    then show ?thesis using False top by (simp add: siblings_def reorderF_def)
  qed
qed

lemma childrenHolding_reflag:
  "childrenHolding y (reflag g e) = map_option (map (reflag g)) (childrenHolding y e)"
proof (induction e)
  case (SElement i v sb t cs)
  have "map (childrenHolding y) (map (reflag g) cs)
      = map (map_option (map (reflag g))) (map (childrenHolding y) cs)"
    using SElement by simp
  then have "firstSome (map (childrenHolding y) (map (reflag g) cs))
      = map_option (map (reflag g)) (firstSome (map (childrenHolding y) cs))"
    by (simp only: firstSome_map_option)
  then show ?case by (simp add: image_comp comp_def)
qed

lemma siblings_reflag:
  "siblings y (map (reflag g) F) = map_option (map (reflag g)) (siblings y F)"
proof -
  have "map (childrenHolding y) (map (reflag g) F)
      = map (map_option (map (reflag g))) (map (childrenHolding y) F)"
    by (simp add: childrenHolding_reflag)
  then have "firstSome (map (childrenHolding y) (map (reflag g) F))
      = map_option (map (reflag g)) (firstSome (map (childrenHolding y) F))"
    by (simp only: firstSome_map_option)
  then show ?thesis by (simp add: siblings_def image_comp comp_def)
qed

subsection \<open>The order of the children after redo\<close>

lemma remdups_snoc: "remdups (xs @ [x]) = filter (\<lambda>y. y \<noteq> x) (remdups xs) @ [x]"
  by (induction xs) auto

lemma ids_toEnd:
  "map eid (toEnd x cs) =
     (if x \<in> set (map eid cs) then filter (\<lambda>i. i \<noteq> x) (map eid cs) @ [x] else map eid cs)"
proof (cases "find (\<lambda>c. eid c = x) cs")
  case None
  then have "x \<notin> eid ` set cs" using find_None_eid [of x cs] by blast
  then show ?thesis by (simp add: toEnd_absent)
next
  case (Some c)
  have c: "c \<in> set cs" "eid c = x" using find_Some_eid [OF Some] by simp_all
  have "map eid (filter (\<lambda>d. eid d \<noteq> x) cs) = filter (\<lambda>i. i \<noteq> x) (map eid cs)"
    by (simp add: filter_map comp_def)
  then show ?thesis using Some c by (auto simp: toEnd_def)
qed

lemma raised_snoc:
  "raised (xs @ [x]) ids =
     (if x \<in> set (raised xs ids) then filter (\<lambda>i. i \<noteq> x) (raised xs ids) @ [x]
      else raised xs ids)"
proof (cases "x \<in> set ids")
  case True
  have a: "filter (\<lambda>i. i \<noteq> x) (filter (\<lambda>i. i \<notin> set xs) ids)
      = filter (\<lambda>i. i \<notin> set (xs @ [x])) ids"
    by (auto simp: filter_filter intro: filter_cong)
  have b: "filter (\<lambda>i. i \<noteq> x) (filter (\<lambda>i. i \<in> set ids) (remdups xs))
      = filter (\<lambda>i. i \<in> set ids) (filter (\<lambda>y. y \<noteq> x) (remdups xs))"
    by (auto simp: filter_filter intro: filter_cong)
  have "x \<in> set (raised xs ids)" using True by (auto simp: raised_def)
  then show ?thesis using True a b by (simp add: raised_def remdups_snoc)
next
  case False
  have a: "filter (\<lambda>i. i \<notin> set (xs @ [x])) ids = filter (\<lambda>i. i \<notin> set xs) ids"
    using False by (intro filter_cong) auto
  have b: "filter (\<lambda>i. i \<in> set ids) (filter (\<lambda>y. y \<noteq> x) (remdups xs))
      = filter (\<lambda>i. i \<in> set ids) (remdups xs)"
    using False by (auto simp: filter_filter intro: filter_cong)
  have "x \<notin> set (raised xs ids)" using False by (auto simp: raised_def)
  then show ?thesis using False a b by (simp add: raised_def remdups_snoc)
qed

lemma ids_raiseAll: "map eid (raiseAll sels cs) = raised (map element sels) (map eid cs)"
proof (induction sels rule: rev_induct)
  case Nil
  then show ?case by (simp add: raiseAll_def raised_def)
next
  case (snoc a sels)
  have "raiseAll (sels @ [a]) cs = toEnd (element a) (raiseAll sels cs)"
    by (simp add: raiseAll_def)
  then show ?case using snoc by (simp add: ids_toEnd raised_snoc)
qed

lemma siblings_redoForest:
  assumes d: "distinct (idsOf F)"
  shows "map_option (map eid) (siblings y (redoForest c F))
       = map_option (\<lambda>sibs. raised (map element (cmdSelected c)) (map eid sibs)) (siblings y F)"
proof -
  let ?R = "raiseAll (cmdSelected c)"
  have "siblings y (redoForest c F)
      = map_option (map (reflag (redoFlags c)))
          (map_option (\<lambda>cs. ?R (map (reorder ?R) cs)) (siblings y F))"
    by (simp only: redoForest_change [OF d] siblings_reflag
        siblings_reorderF [OF permuting_raiseAll d])
  then show ?thesis
    by (simp add: option.map_comp comp_def ids_raiseAll)
qed

lemma siblings_present:
  assumes "x \<in> set (idsOf F)"
  shows "\<exists>sibs. siblings x F = Some sibs \<and> x \<in> eid ` set sibs"
proof (cases "x \<in> eid ` set F")
  case True
  then show ?thesis by (simp add: siblings_def)
next
  case False
  then obtain c where c: "c \<in> set F" "x \<in> set (idsOf (children c))"
    using assms by (auto simp: idsOf_set [of F])
  then have "childrenHolding x c \<noteq> None" using childrenHolding_None by blast
  then have "firstSome (map (childrenHolding x) F) \<noteq> None"
    using c(1) by (auto simp: firstSome_None)
  then obtain sibs where s: "firstSome (map (childrenHolding x) F) = Some sibs" by auto
  then obtain c' where "c' \<in> set F" "childrenHolding x c' = Some sibs"
    using firstSome_Some by fastforce
  then have "x \<in> eid ` set sibs" using childrenHolding_Some by blast
  then show ?thesis using False s by (simp add: siblings_def)
qed

lemma length_takeWhile_less: "\<exists>x\<in>set xs. \<not> P x \<Longrightarrow> length (takeWhile P xs) < length xs"
  by (induction xs) auto

lemma indexOf_nth:
  assumes "x \<in> eid ` set sibs"
  shows "0 \<le> indexOf x sibs \<and> nat (indexOf x sibs) < length sibs
         \<and> eid (sibs ! nat (indexOf x sibs)) = x"
proof -
  let ?n = "length (takeWhile (\<lambda>c. eid c \<noteq> x) sibs)"
  have "?n < length sibs" using assms by (intro length_takeWhile_less) auto
  moreover have "?n < length sibs \<Longrightarrow> \<not> eid (sibs ! ?n) \<noteq> x" by (rule nth_length_takeWhile)
  ultimately show ?thesis using assms by (simp add: indexOf_def)
qed

subsection \<open>What execute captures\<close>

lemma selectStep_eq:
  "selectStep m x acc =
     (fst acc @ (if isSelectableChild m x then [selectionOf (rootChildren m) x] else []),
      snd acc @ (if isSelectableNode m x then [x] else []))"
  by (cases acc)
     (simp add: selectStep_def isSelectableChild_def isSelectableNode_def split: option.split)

lemma deselectStep_eq:
  "deselectStep m x acc =
     acc @ (if isSelectableChild m x then [selectionOf (rootChildren m) x] else [])"
  by (simp add: deselectStep_def isSelectableChild_def split: option.split)

lemma fold_selectStep:
  "fold (selectStep m) ids acc =
     (fst acc @ map (selectionOf (rootChildren m)) (filter (isSelectableChild m) ids),
      snd acc @ filter (isSelectableNode m) ids)"
proof (induction ids arbitrary: acc)
  case Nil
  then show ?case by simp
next
  case (Cons x ids)
  show ?case
    unfolding fold_Cons comp_def Cons.IH
    by (simp add: selectStep_eq)
qed

lemma fold_deselectStep:
  "fold (deselectStep m) ids acc =
     acc @ map (selectionOf (rootChildren m)) (filter (isSelectableChild m) ids)"
proof (induction ids arbitrary: acc)
  case Nil
  then show ?case by simp
next
  case (Cons x ids)
  show ?case
    unfolding fold_Cons comp_def Cons.IH
    by (simp add: deselectStep_eq)
qed

lemma capture_new:
  "capture ix (newSelectCommand a) m =
     \<lparr> cmdAction = a,
       cmdSelected =
         (if filter (isSelectableNode m) (selectedElementsIDs a) = [] then []
          else connectedEdges ix m (filter (isSelectableNode m) (selectedElementsIDs a)))
         @ map (selectionOf (rootChildren m))
             (filter (isSelectableChild m) (selectedElementsIDs a)),
       cmdDeselected =
         map (selectionOf (rootChildren m))
           (filter (isSelectableChild m) (deselectedElementsIDs a)) \<rparr>"
  by (simp add: capture_def newSelectCommand_def fold_selectStep fold_deselectStep)

lemma isSelectableChild_present:
  "isSelectableChild m x \<Longrightarrow> x \<in> set (idsOf (rootChildren m))"
proof -
  assume "isSelectableChild m x"
  then obtain e where "find (\<lambda>e. eid e = x) (allChildren (rootChildren m)) = Some e"
    by (auto simp: isSelectableChild_def getChildById_def split: option.splits if_splits)
  then show ?thesis using find_Some_eid [of x "allChildren (rootChildren m)" e]
    by (auto simp: idsOf_def)
qed

lemma selectionOf_index:
  assumes "x \<in> set (idsOf F)"
  shows "\<exists>sibs. siblings x F = Some sibs
           \<and> element (selectionOf F x) = x
           \<and> 0 \<le> index (selectionOf F x)
           \<and> nat (index (selectionOf F x)) < length sibs
           \<and> eid (sibs ! nat (index (selectionOf F x))) = x"
proof -
  obtain sibs where s: "siblings x F = Some sibs" "x \<in> eid ` set sibs"
    using siblings_present [OF assms] by auto
  then show ?thesis using indexOf_nth [OF s(2)] by (simp add: selectionOf_def)
qed

lemma captured_index:
  assumes "set ix \<subseteq> set (allChildren (rootChildren m))"
    and "s \<in> set (cmdSelected (capture ix (newSelectCommand a) m))"
  shows "\<exists>sibs. siblings (element s) (rootChildren m) = Some sibs
           \<and> 0 \<le> index s \<and> nat (index s) < length sibs
           \<and> eid (sibs ! nat (index s)) = element s"
proof -
  let ?F = "rootChildren m"
  have "\<exists>x. x \<in> set (idsOf ?F) \<and> s = selectionOf ?F x"
    using assms isSelectableChild_present [of m]
    by (auto simp: capture_new connectedEdges_def idsOf_def split: if_splits)
  then obtain x where x: "x \<in> set (idsOf ?F)" "s = selectionOf ?F x" by auto
  show ?thesis using selectionOf_index [OF x(1)] x(2) by auto
qed

lemma captured_present:
  assumes "set ix \<subseteq> set (allChildren (rootChildren m))"
    and "s \<in> set (cmdSelected (capture ix (newSelectCommand a) m))
         \<or> s \<in> set (cmdDeselected (capture ix (newSelectCommand a) m))"
  shows "element s \<in> set (idsOf (rootChildren m))"
  using assms isSelectableChild_present [of m]
  by (auto simp: capture_new connectedEdges_def idsOf_def selectionOf_def split: if_splits)


section \<open>Properties of the selection commands\<close>

lemma redo_change:
  assumes "wellFormed m"
  shows "snd (redo c m) =
     m\<lparr>rootChildren := map (reflag (redoFlags c))
          (reorderF (raiseAll (cmdSelected c)) (rootChildren m))\<rparr>"
  using assms by (simp add: redo_def wellFormed_def redoForest_change)

lemma getChildById_eid: "getChildById m x = Some e \<Longrightarrow> eid e = x"
  using find_Some_eid [of x "allChildren (rootChildren m)" e]
  by (simp add: getChildById_def split: if_splits)

lemma redo_flags:
  assumes w: "wellFormed m"
  shows "map_option selected (getChildById (snd (redo c m)) x) =
     map_option (\<lambda>e. if selectable e then redoFlags c x (selected e) else selected e)
       (getChildById m x)"
proof (cases "getChildById m x")
  case None
  then show ?thesis
    unfolding redo_change [OF w]
    by (simp add: getChildById_change [OF w natural_raiseAll permuting_raiseAll])
next
  case (Some e)
  then have "eid e = x" by (rule getChildById_eid)
  then show ?thesis
    unfolding redo_change [OF w]
    using Some
    by (simp add: getChildById_change [OF w natural_raiseAll permuting_raiseAll] selected_change)
qed

lemma redo_order:
  assumes w: "wellFormed m"
  shows "map_option (map eid) (siblings y (rootChildren (snd (redo c m)))) =
     map_option (\<lambda>sibs. raised (map element (cmdSelected c)) (map eid sibs))
       (siblings y (rootChildren m))"
  using w by (simp add: redo_def wellFormed_def siblings_redoForest)

text \<open>
  C2. \<open>redo\<close> moves, then deselects, then selects. On a well-formed model that holds
  the captured elements, what it leaves is this: a selectable element whose id is in
  the captured selected list is selected, also when it is in the deselected list as
  well; one that is only in the deselected list is not selected; any other flag is
  as before. Every children list has the captured selected elements at its end, in
  the order of the captured list (an element captured twice stands where its last
  entry puts it), behind the other children in their old order.
\<close>

theorem redo_phases:
  assumes "wellFormed m"
    and "element ` set (cmdSelected c @ cmdDeselected c) \<subseteq> set (idsOf (rootChildren m))"
  shows "(\<forall>x. map_option selected (getChildById (snd (redo c m)) x) =
            map_option (\<lambda>e. if selectable e
                             then (if x \<in> element ` set (cmdSelected c) then True
                                   else if x \<in> element ` set (cmdDeselected c) then False
                                   else selected e)
                             else selected e)
              (getChildById m x))
       \<and> (\<forall>y. map_option (map eid) (siblings y (rootChildren (snd (redo c m)))) =
            map_option (\<lambda>sibs. raised (map element (cmdSelected c)) (map eid sibs))
              (siblings y (rootChildren m)))
       \<and> fst (redo c m) = c"
  using redo_flags [OF assms(1), of c] redo_order [OF assms(1), of _ c]
  by (simp add: redoFlags_def redo_def)

text \<open>
  C9. For a model and a \<open>SelectAction\<close>, \<open>execute\<close> of the new command is the capture
  of the two lists followed by \<open>redo\<close>, and on a well-formed model \<open>redo\<close> after \<open>undo\<close>
  after \<open>execute\<close> leaves the model that \<open>execute\<close> left.
\<close>

theorem execute_is_capture_then_redo:
  assumes "wellFormed m" and "set ix = set (allChildren (rootChildren m))"
  shows "execute ix (newSelectCommand a) m = redo (capture ix (newSelectCommand a) m) m
       \<and> snd (redo (fst (undo (fst (execute ix (newSelectCommand a) m))
                               (snd (execute ix (newSelectCommand a) m))))
                    (snd (undo (fst (execute ix (newSelectCommand a) m))
                               (snd (execute ix (newSelectCommand a) m)))))
           = snd (execute ix (newSelectCommand a) m)"
proof -
  let ?c1 = "capture ix (newSelectCommand a) m"
  have d: "distinct (idsOf (rootChildren m))" using assms(1) by (simp add: wellFormed_def)
  have "redoForest (?c1\<lparr>cmdDeselected := rev (cmdDeselected ?c1)\<rparr>)
          (undoForest ?c1 (redoForest ?c1 (rootChildren m)))
        = redoForest ?c1 (rootChildren m)"
    using d by (rule redo_undo_redo_forest) simp_all
  then show ?thesis by (simp add: execute_def redo_def undo_def)
qed

text \<open>
  C3, as amended. \<open>execute\<close> of a new command captures, for the ids of the action that
  name selectable elements below the root, their selections in the order of the
  action; when one of them is a node, the selections of the edges that the index
  lists and whose source or target is such a node come before them, so that every
  such edge of the model is captured. Each selection holds the index of its element
  among its siblings. After \<open>execute\<close> every children list has the captured elements
  at its end in captured order, and the children that were not captured, the
  other edges among them, keep their order relative to one another.
\<close>

theorem execute_raises_connected_edges:
  assumes "wellFormed m" and "set ix = set (allChildren (rootChildren m))"
  shows "cmdSelected (fst (execute ix (newSelectCommand a) m)) =
           (if filter (isSelectableNode m) (selectedElementsIDs a) = [] then []
            else map (\<lambda>e. selectionOf (rootChildren m) (eid e))
                   (filter (isConnectedEdge (filter (isSelectableNode m) (selectedElementsIDs a)))
                      ix))
           @ map (selectionOf (rootChildren m))
               (filter (isSelectableChild m) (selectedElementsIDs a))
       \<and> (\<forall>e\<in>set (allChildren (rootChildren m)).
             isConnectedEdge (filter (isSelectableNode m) (selectedElementsIDs a)) e
             \<longrightarrow> eid e \<in> element ` set (cmdSelected (fst (execute ix (newSelectCommand a) m))))
       \<and> (\<forall>s\<in>set (cmdSelected (fst (execute ix (newSelectCommand a) m))).
             \<exists>sibs. siblings (element s) (rootChildren m) = Some sibs
                  \<and> 0 \<le> index s \<and> nat (index s) < length sibs
                  \<and> eid (sibs ! nat (index s)) = element s)
       \<and> (\<forall>y. map_option (map eid)
                 (siblings y (rootChildren (snd (execute ix (newSelectCommand a) m)))) =
               map_option
                 (\<lambda>sibs. raised (map element (cmdSelected (fst (execute ix (newSelectCommand a) m))))
                           (map eid sibs))
                 (siblings y (rootChildren m)))"
proof -
  let ?nodes = "filter (isSelectableNode m) (selectedElementsIDs a)"
  have c: "fst (execute ix (newSelectCommand a) m) = capture ix (newSelectCommand a) m"
    by (simp add: execute_def redo_def)
  have s: "snd (execute ix (newSelectCommand a) m)
      = snd (redo (capture ix (newSelectCommand a) m) m)"
    by (simp add: execute_def)
  have sub: "set ix \<subseteq> set (allChildren (rootChildren m))" using assms(2) by simp
  have n: "\<And>e. isConnectedEdge ?nodes e \<Longrightarrow> ?nodes \<noteq> []"
    by (auto simp: isConnectedEdge_def filter_empty_conv split: variant.splits)
  have e: "\<And>e. e \<in> set (allChildren (rootChildren m)) \<Longrightarrow> isConnectedEdge ?nodes e
      \<Longrightarrow> eid e \<in> element ` set (cmdSelected (capture ix (newSelectCommand a) m))"
  proof -
    fix e assume e: "e \<in> set (allChildren (rootChildren m))" "isConnectedEdge ?nodes e"
    have "selectionOf (rootChildren m) (eid e)
        \<in> set (cmdSelected (capture ix (newSelectCommand a) m))"
      using e n [OF e(2)] assms(2) by (simp add: capture_new connectedEdges_def)
    then have "element (selectionOf (rootChildren m) (eid e))
        \<in> element ` set (cmdSelected (capture ix (newSelectCommand a) m))"
      by (rule imageI)
    then show "eid e \<in> element ` set (cmdSelected (capture ix (newSelectCommand a) m))"
      by (simp add: selectionOf_def)
  qed
  show ?thesis
    unfolding c s
    using captured_index [OF sub, of _ a] redo_order [OF assms(1)] e
    by (simp add: capture_new connectedEdges_def)
qed

theorem redo_phases_witness:
  "wellFormed exampleSiblings
   \<and> element ` set (cmdSelected (capture (allChildren (rootChildren exampleSiblings))
                  (newSelectCommand
                    \<lparr>selectedElementsIDs = [''A''], deselectedElementsIDs = [''A'', ''B'']\<rparr>)
                  exampleSiblings)
               @ cmdDeselected (capture (allChildren (rootChildren exampleSiblings))
                  (newSelectCommand
                    \<lparr>selectedElementsIDs = [''A''], deselectedElementsIDs = [''A'', ''B'']\<rparr>)
                  exampleSiblings))
       \<subseteq> set (idsOf (rootChildren exampleSiblings))
   \<and> map_option selected
       (getChildById
          (snd (redo (capture (allChildren (rootChildren exampleSiblings))
                  (newSelectCommand
                    \<lparr>selectedElementsIDs = [''A''], deselectedElementsIDs = [''A'', ''B'']\<rparr>)
                  exampleSiblings) exampleSiblings)) ''A'') = Some True
   \<and> map_option selected
       (getChildById
          (snd (redo (capture (allChildren (rootChildren exampleSiblings))
                  (newSelectCommand
                    \<lparr>selectedElementsIDs = [''A''], deselectedElementsIDs = [''A'', ''B'']\<rparr>)
                  exampleSiblings) exampleSiblings)) ''B'') = Some False
   \<and> map_option (map eid)
       (siblings ''B''
          (rootChildren
             (snd (redo (capture (allChildren (rootChildren exampleSiblings))
                  (newSelectCommand
                    \<lparr>selectedElementsIDs = [''A''], deselectedElementsIDs = [''A'', ''B'']\<rparr>)
                  exampleSiblings) exampleSiblings)))) = Some [''B'', ''C'', ''A'']"
proof -
  let ?c = "capture (allChildren (rootChildren exampleSiblings))
              (newSelectCommand
                \<lparr>selectedElementsIDs = [''A''], deselectedElementsIDs = [''A'', ''B'']\<rparr>)
              exampleSiblings"
  have w: "wellFormed exampleSiblings" by code_simp
  have p: "element ` set (cmdSelected ?c @ cmdDeselected ?c)
             \<subseteq> set (idsOf (rootChildren exampleSiblings))"
    by code_simp
  have a: "map_option (\<lambda>e. if selectable e
                             then (if ''A'' \<in> element ` set (cmdSelected ?c) then True
                                   else if ''A'' \<in> element ` set (cmdDeselected ?c) then False
                                   else selected e)
                             else selected e)
              (getChildById exampleSiblings ''A'') = Some True"
    by code_simp
  have b: "map_option (\<lambda>e. if selectable e
                             then (if ''B'' \<in> element ` set (cmdSelected ?c) then True
                                   else if ''B'' \<in> element ` set (cmdDeselected ?c) then False
                                   else selected e)
                             else selected e)
              (getChildById exampleSiblings ''B'') = Some False"
    by code_simp
  have s: "map_option (\<lambda>sibs. raised (map element (cmdSelected ?c)) (map eid sibs))
              (siblings ''B'' (rootChildren exampleSiblings)) = Some [''B'', ''C'', ''A'']"
    by code_simp
  note t = redo_phases [OF w p]
  have ta: "map_option selected (getChildById (snd (redo ?c exampleSiblings)) ''A'') = Some True"
    using t [THEN conjunct1, THEN spec, of "''A''"] a by simp
  have tb: "map_option selected (getChildById (snd (redo ?c exampleSiblings)) ''B'') = Some False"
    using t [THEN conjunct1, THEN spec, of "''B''"] b by simp
  have ts: "map_option (map eid) (siblings ''B'' (rootChildren (snd (redo ?c exampleSiblings))))
      = Some [''B'', ''C'', ''A'']"
    using t [THEN conjunct2, THEN conjunct1, THEN spec, of "''B''"] s by simp
  show ?thesis using w p ta tb ts by blast
qed

theorem execute_is_capture_then_redo_witness:
  "wellFormed exampleGraph
   \<and> set (allChildren (rootChildren exampleGraph)) = set (allChildren (rootChildren exampleGraph))
   \<and> map eid (rootChildren (snd (execute (allChildren (rootChildren exampleGraph))
        (newSelectCommand \<lparr>selectedElementsIDs = [''N1''], deselectedElementsIDs = [''N2'']\<rparr>)
        exampleGraph))) = [''N2'', ''N3'', ''E2'', ''E1'', ''N1'']
   \<and> snd (redo
        (fst (undo
           (fst (execute (allChildren (rootChildren exampleGraph))
              (newSelectCommand \<lparr>selectedElementsIDs = [''N1''], deselectedElementsIDs = [''N2'']\<rparr>)
              exampleGraph))
           (snd (execute (allChildren (rootChildren exampleGraph))
              (newSelectCommand \<lparr>selectedElementsIDs = [''N1''], deselectedElementsIDs = [''N2'']\<rparr>)
              exampleGraph))))
        (snd (undo
           (fst (execute (allChildren (rootChildren exampleGraph))
              (newSelectCommand \<lparr>selectedElementsIDs = [''N1''], deselectedElementsIDs = [''N2'']\<rparr>)
              exampleGraph))
           (snd (execute (allChildren (rootChildren exampleGraph))
              (newSelectCommand \<lparr>selectedElementsIDs = [''N1''], deselectedElementsIDs = [''N2'']\<rparr>)
              exampleGraph)))))
     = snd (execute (allChildren (rootChildren exampleGraph))
        (newSelectCommand \<lparr>selectedElementsIDs = [''N1''], deselectedElementsIDs = [''N2'']\<rparr>)
        exampleGraph)"
proof -
  have w: "wellFormed exampleGraph" by code_simp
  have e: "map eid (rootChildren (snd (execute (allChildren (rootChildren exampleGraph))
        (newSelectCommand \<lparr>selectedElementsIDs = [''N1''], deselectedElementsIDs = [''N2'']\<rparr>)
        exampleGraph))) = [''N2'', ''N3'', ''E2'', ''E1'', ''N1'']"
    by code_simp
  show ?thesis
    using w e execute_is_capture_then_redo [OF w refl,
        of "\<lparr>selectedElementsIDs = [''N1''], deselectedElementsIDs = [''N2'']\<rparr>"]
    by blast
qed

theorem execute_raises_connected_edges_witness:
  "wellFormed exampleGraph
   \<and> set (rev (allChildren (rootChildren exampleGraph)))
       = set (allChildren (rootChildren exampleGraph))
   \<and> cmdSelected (fst (execute (rev (allChildren (rootChildren exampleGraph)))
        (newSelectCommand \<lparr>selectedElementsIDs = [''N2''], deselectedElementsIDs = []\<rparr>)
        exampleGraph))
       = [\<lparr>element = ''E2'', index = 4\<rparr>, \<lparr>element = ''E1'', index = 3\<rparr>,
          \<lparr>element = ''N2'', index = 1\<rparr>]
   \<and> SElement ''E1'' (SEdge ''N2'' ''N1'') True False []
       \<in> set (allChildren (rootChildren exampleGraph))
   \<and> isConnectedEdge [''N2''] (SElement ''E1'' (SEdge ''N2'' ''N1'') True False [])
   \<and> (\<exists>sibs. siblings ''E1'' (rootChildren exampleGraph) = Some sibs
          \<and> nat 3 < length sibs \<and> eid (sibs ! nat 3) = ''E1'')
   \<and> map_option (map eid)
       (siblings ''N3'' (rootChildren (snd (execute (rev (allChildren (rootChildren exampleGraph)))
          (newSelectCommand \<lparr>selectedElementsIDs = [''N2''], deselectedElementsIDs = []\<rparr>)
          exampleGraph))))
       = Some [''N1'', ''N3'', ''E2'', ''E1'', ''N2'']"
proof -
  let ?a = "\<lparr>selectedElementsIDs = [''N2''], deselectedElementsIDs = []\<rparr>"
  let ?ix = "rev (allChildren (rootChildren exampleGraph))"
  let ?sel = "[\<lparr>element = ''E2'', index = 4\<rparr>, \<lparr>element = ''E1'', index = 3\<rparr>,
               \<lparr>element = ''N2'', index = 1\<rparr>]"
  have w: "wellFormed exampleGraph" by code_simp
  have i: "set ?ix = set (allChildren (rootChildren exampleGraph))" by simp
  have c: "(if filter (isSelectableNode exampleGraph) (selectedElementsIDs ?a) = [] then []
            else map (\<lambda>e. selectionOf (rootChildren exampleGraph) (eid e))
                   (filter (isConnectedEdge
                       (filter (isSelectableNode exampleGraph) (selectedElementsIDs ?a)))
                      ?ix))
           @ map (selectionOf (rootChildren exampleGraph))
               (filter (isSelectableChild exampleGraph) (selectedElementsIDs ?a))
       = ?sel"
    by code_simp
  have r: "map_option (\<lambda>sibs. raised (map element ?sel) (map eid sibs))
             (siblings ''N3'' (rootChildren exampleGraph))
       = Some [''N1'', ''N3'', ''E2'', ''E1'', ''N2'']"
    by code_simp
  have m: "SElement ''E1'' (SEdge ''N2'' ''N1'') True False []
       \<in> set (allChildren (rootChildren exampleGraph))"
    by code_simp
  have k: "isConnectedEdge [''N2''] (SElement ''E1'' (SEdge ''N2'' ''N1'') True False [])"
    by code_simp
  note t = execute_raises_connected_edges [OF w i, of ?a]
  have sel: "cmdSelected (fst (execute ?ix (newSelectCommand ?a) exampleGraph)) = ?sel"
    using t [THEN conjunct1] c by simp
  have mem: "\<lparr>element = ''E1'', index = 3\<rparr>
      \<in> set (cmdSelected (fst (execute ?ix (newSelectCommand ?a) exampleGraph)))"
    unfolding sel by simp
  have idx: "\<exists>sibs. siblings ''E1'' (rootChildren exampleGraph) = Some sibs
          \<and> nat 3 < length sibs \<and> eid (sibs ! nat 3) = ''E1''"
    using bspec [OF t [THEN conjunct2, THEN conjunct2, THEN conjunct1] mem] by simp
  have ord: "map_option (map eid)
       (siblings ''N3'' (rootChildren (snd (execute ?ix (newSelectCommand ?a) exampleGraph))))
       = Some [''N1'', ''N3'', ''E2'', ''E1'', ''N2'']"
    using t [THEN conjunct2, THEN conjunct2, THEN conjunct2, THEN spec, of "''N3''"] r
    unfolding sel by simp
  show ?thesis using w i sel m k idx ord by blast
qed

text \<open>
  C3 as first stated says that an edge that is not connected keeps its
  position. With the nodes N1, N2 and N3 and the edges E1 from N2 to N1 and E2 from
  N2 to N3 below the root, in this order, and the action that selects N1, E2 is such
  an edge; it is the child with index 4 before \<open>execute\<close> and the child with index 2
  after it, since two of the siblings before it were moved to the end.
\<close>

theorem unrelated_edge_index_changes:
  "cmdSelected (fst (execute (allChildren (rootChildren exampleGraph))
        (newSelectCommand \<lparr>selectedElementsIDs = [''N1''], deselectedElementsIDs = []\<rparr>)
        exampleGraph))
     = [\<lparr>element = ''E1'', index = 3\<rparr>, \<lparr>element = ''N1'', index = 0\<rparr>]
   \<and> map eid (rootChildren exampleGraph) = [''N1'', ''N2'', ''N3'', ''E1'', ''E2'']
   \<and> indexOf ''E2'' (rootChildren exampleGraph) = 4
   \<and> map eid (rootChildren (snd (execute (allChildren (rootChildren exampleGraph))
        (newSelectCommand \<lparr>selectedElementsIDs = [''N1''], deselectedElementsIDs = []\<rparr>)
        exampleGraph))) = [''N2'', ''N3'', ''E2'', ''E1'', ''N1'']
   \<and> indexOf ''E2'' (rootChildren (snd (execute (allChildren (rootChildren exampleGraph))
        (newSelectCommand \<lparr>selectedElementsIDs = [''N1''], deselectedElementsIDs = []\<rparr>)
        exampleGraph))) = 2"
  by code_simp

text \<open>
  C1. \<open>undo\<close> after \<open>execute\<close> is to give back the model as it was. With the siblings
  A, B and C and the action that selects A and B, \<open>execute\<close> captures A at index 0 and
  B at index 1 and leaves the order C, A, B; \<open>undo\<close> then puts B back at index 1 and A
  at index 0, one after the other, which leaves the order A, C, B and not A, B, C.
\<close>

theorem undo_execute_order:
  "map eid (rootChildren exampleSiblings) = [''A'', ''B'', ''C'']
   \<and> cmdSelected (fst (execute (allChildren (rootChildren exampleSiblings))
        (newSelectCommand \<lparr>selectedElementsIDs = [''A'', ''B''], deselectedElementsIDs = []\<rparr>)
        exampleSiblings))
       = [\<lparr>element = ''A'', index = 0\<rparr>, \<lparr>element = ''B'', index = 1\<rparr>]
   \<and> map eid (rootChildren (snd (execute (allChildren (rootChildren exampleSiblings))
        (newSelectCommand \<lparr>selectedElementsIDs = [''A'', ''B''], deselectedElementsIDs = []\<rparr>)
        exampleSiblings))) = [''C'', ''A'', ''B'']
   \<and> map eid (rootChildren (snd (undo
        (fst (execute (allChildren (rootChildren exampleSiblings))
          (newSelectCommand \<lparr>selectedElementsIDs = [''A'', ''B''], deselectedElementsIDs = []\<rparr>)
          exampleSiblings))
        (snd (execute (allChildren (rootChildren exampleSiblings))
          (newSelectCommand \<lparr>selectedElementsIDs = [''A'', ''B''], deselectedElementsIDs = []\<rparr>)
          exampleSiblings))))) = [''A'', ''C'', ''B'']
   \<and> snd (undo
        (fst (execute (allChildren (rootChildren exampleSiblings))
          (newSelectCommand \<lparr>selectedElementsIDs = [''A'', ''B''], deselectedElementsIDs = []\<rparr>)
          exampleSiblings))
        (snd (execute (allChildren (rootChildren exampleSiblings))
          (newSelectCommand \<lparr>selectedElementsIDs = [''A'', ''B''], deselectedElementsIDs = []\<rparr>)
          exampleSiblings))) \<noteq> exampleSiblings"
  by code_simp

text \<open>
  \<open>undo\<close> clears the flag of every captured selected element, whatever the flag was
  before \<open>execute\<close>: with a node B that is selected, the action that selects B leaves B
  selected, and \<open>undo\<close> leaves it not selected.
\<close>

lemma undo_execute_flag:
  "map selected (rootChildren exampleMixed) = [False, True]
   \<and> map selected (rootChildren (snd (execute (allChildren (rootChildren exampleMixed))
        (newSelectCommand \<lparr>selectedElementsIDs = [''B''], deselectedElementsIDs = []\<rparr>)
        exampleMixed))) = [False, True]
   \<and> map selected (rootChildren (snd (undo
        (fst (execute (allChildren (rootChildren exampleMixed))
          (newSelectCommand \<lparr>selectedElementsIDs = [''B''], deselectedElementsIDs = []\<rparr>)
          exampleMixed))
        (snd (execute (allChildren (rootChildren exampleMixed))
          (newSelectCommand \<lparr>selectedElementsIDs = [''B''], deselectedElementsIDs = []\<rparr>)
          exampleMixed))))) = [False, False]"
  by code_simp


end
